theory Spec2Isabelle
  imports Main "HOL-Library.AList"
begin

section \<open>Data model of \<open>main.go\<close>\<close>

text \<open>
  The backend keeps one process-wide \<open>InMemoryStore\<close> with two Go maps,
  \<open>Sessions\<close> (id to \<open>*Session\<close>) and \<open>Clients\<close> (id to \<open>*Client\<close>).
  A \<open>*Session\<close> is shared: the store holds it and every \<open>handleMessages\<close>
  goroutine holds it too, and it stays alive (and is still mutated) after
  \<open>deleteSession\<close> has taken it out of the store.  Sessions therefore live in an
  explicit heap, addressed by natural numbers, and the store maps ids to
  addresses.  A \<open>Client\<close> is never mutated after its creation, so it is a value.

  A \<open>*websocket.Conn\<close> is a number; the connection table records for each
  connection whether \<open>Close\<close> was called on it and the messages written to it,
  in order.
\<close>

record Client =
  c_ID :: string
  c_Name :: string
  c_Conn :: "nat option"
  c_SessionID :: string

record Session =
  s_ID :: string
  s_Name :: string
  s_CreatedAt :: int
  s_Clients :: "(string \<times> Client) list"

record Message =
  m_Type :: string
  m_Payload :: "(string \<times> string) list"

record ConnState =
  closed :: bool
  sent :: "Message list"

record world =
  store_Sessions :: "string \<rightharpoonup> nat"
  store_Clients :: "string \<rightharpoonup> Client"
  heap :: "nat \<Rightarrow> Session"
  next_addr :: nat
  conns :: "nat \<Rightarrow> ConnState"
  next_conn :: nat
  handlers :: "(Client \<times> nat) list"

text \<open>
  \<open>s_Clients\<close> is the Go map \<open>Session.Clients\<close> as an association list with
  distinct keys (\<open>AList.update\<close> and \<open>AList.delete\<close> are the map's store and
  \<open>delete\<close>); the list order stands for the order in which one \<open>range\<close> loop
  visits the entries.  \<open>handlers\<close> lists the running \<open>handleMessages\<close>
  goroutines, each with its two arguments.
\<close>

datatype response =
  StatusCreated Session
  | StatusBadRequest
  | StatusNotFound
  | StatusNoContent
  | StatusOK Session
  | SwitchingProtocols
  | UpgradeFailed

definition NewInMemoryStore :: world where
  "NewInMemoryStore =
     \<lparr>store_Sessions = Map.empty, store_Clients = Map.empty,
      heap = (\<lambda>_. \<lparr>s_ID = [], s_Name = [], s_CreatedAt = 0, s_Clients = []\<rparr>),
      next_addr = 0,
      conns = (\<lambda>_. \<lparr>closed = False, sent = []\<rparr>),
      next_conn = 0,
      handlers = []\<rparr>"

section \<open>\<open>utils.go\<close>\<close>

text \<open>
  \<open>rand.Intn\<close> is the only source of randomness.  The raw values it draws are
  an argument \<open>rnd\<close> (the \<open>i\<close>-th draw of the call is \<open>rnd i\<close>), reduced to the
  requested range.
\<close>

definition charset :: string where
  "charset = ''abcdefghijklmnopqrstuvwxyzABCDEFGHIJKLMNOPQRSTUVWXYZ0123456789''"

definition Intn :: "nat \<Rightarrow> nat \<Rightarrow> nat" where
  "Intn n raw = raw mod n"

definition randomString :: "nat \<Rightarrow> (nat \<Rightarrow> nat) \<Rightarrow> string" where
  "randomString len rnd = map (\<lambda>i. charset ! Intn (length charset) (rnd i)) [0..<len]"

definition generateID :: "(nat \<Rightarrow> nat) \<Rightarrow> string" where
  "generateID rnd = ''id_'' @ randomString 8 rnd"

section \<open>JSON on the wire\<close>

text \<open>
  \<open>WriteJSON\<close> sends the JSON text that \<open>encoding/json\<close> produces for the message; the
  library is not part of the repository.  A string is a list of bytes (a Go string is one,
  and so is \<open>string(message)\<close> of the bytes read).  Writing a string, the encoder walks
  through it with \<open>utf8.DecodeRuneInString\<close>, and wherever that returns
  \<open>(RuneError, 1)\<close>, a byte that starts no valid UTF-8 encoding, it writes U+FFFD in
  place of that byte; the escapes it writes otherwise are undone when the text is decoded.

  \<open>DecodeRuneInString s\<close> is \<open>None\<close> for the result \<open>(RuneError, 1)\<close> and the size
  of the encoding at the head of \<open>s\<close> otherwise; the case distinction is the one of the
  tables \<open>first\<close> and \<open>acceptRanges\<close> of \<open>unicode/utf8\<close>.  \<open>ValidString\<close> is
  \<open>utf8.ValidString\<close>.  \<open>json_string s\<close> is the string that a JSON decoder reads from
  what the encoder wrote for \<open>s\<close>, and \<open>json_Message\<close> the message it reads: type,
  keys and values are strings.  The payload of a message is a JSON object; the list keeps its
  fields in the order of the source's literal.
\<close>

definition RuneError :: string where
  "RuneError = [CHR 0xEF, CHR 0xBF, CHR 0xBD]"

definition between :: "nat \<Rightarrow> nat \<Rightarrow> char \<Rightarrow> bool" where
  "between lo hi b \<longleftrightarrow> lo \<le> of_char b \<and> (of_char b :: nat) \<le> hi"

definition DecodeRuneInString :: "string \<Rightarrow> nat option" where
  "DecodeRuneInString s =
     (case s of
        [] \<Rightarrow> Some 0
      | s0 # rest \<Rightarrow>
          let x = (of_char s0 :: nat) in
          if x < 0x80 then Some 1
          else if x < 0xC2 \<or> 0xF4 < x then None
          else
            let sz = (if x < 0xE0 then 2 else if x < 0xF0 then 3 else 4 :: nat);
                lo = (if x = 0xE0 then 0xA0 else if x = 0xF0 then 0x90 else 0x80 :: nat);
                hi = (if x = 0xED then 0x9F else if x = 0xF4 then 0x8F else 0xBF :: nat)
            in if length s < sz then None
               else if \<not> between lo hi (s ! 1) then None
               else if sz \<le> 2 then Some 2
               else if \<not> between 0x80 0xBF (s ! 2) then None
               else if sz \<le> 3 then Some 3
               else if \<not> between 0x80 0xBF (s ! 3) then None
               else Some 4)"

fun ValidString :: "string \<Rightarrow> bool" where
  "ValidString [] = True"
| "ValidString (b # bs) =
     (case DecodeRuneInString (b # bs) of
        None \<Rightarrow> False
      | Some n \<Rightarrow> ValidString (drop (n - 1) bs))"

fun json_string :: "string \<Rightarrow> string" where
  "json_string [] = []"
| "json_string (b # bs) =
     (case DecodeRuneInString (b # bs) of
        None \<Rightarrow> RuneError @ json_string bs
      | Some n \<Rightarrow> b # take (n - 1) bs @ json_string (drop (n - 1) bs))"

definition json_Message :: "Message \<Rightarrow> Message" where
  "json_Message message =
     \<lparr>m_Type = json_string (m_Type message),
      m_Payload = map (\<lambda>e. (json_string (fst e), json_string (snd e))) (m_Payload message)\<rparr>"

section \<open>Connections\<close>

text \<open>
  The websocket library is not part of the repository.  Its model: \<open>Close\<close>
  marks the connection closed (a second \<open>Close\<close> changes nothing),
  \<open>WriteJSON\<close> fails on a closed connection and otherwise appends the message,
  as its JSON text reads, to what the peer is sent, and \<open>ReadMessage\<close> fails on a
  closed connection and otherwise returns what the peer provides: the bytes of a text or
  binary message, or \<open>None\<close> for a stream error or the end of the stream.
\<close>

definition Close :: "nat \<Rightarrow> world \<Rightarrow> world" where
  "Close n s = s\<lparr>conns := (conns s)(n := (conns s n)\<lparr>closed := True\<rparr>)\<rparr>"

definition WriteJSON :: "nat \<Rightarrow> Message \<Rightarrow> world \<Rightarrow> bool \<times> world" where
  "WriteJSON n message s =
     (if closed (conns s n) then (False, s)
      else (True, s\<lparr>conns := (conns s)(n := (conns s n)\<lparr>sent := sent (conns s n) @ [json_Message message]\<rparr>)\<rparr>))"

definition ReadMessage :: "nat option \<Rightarrow> string option \<Rightarrow> world \<Rightarrow> string option" where
  "ReadMessage conn peer s =
     (case conn of None \<Rightarrow> None
      | Some n \<Rightarrow> if closed (conns s n) then None else peer)"

definition sendMessage :: "nat option \<Rightarrow> Message \<Rightarrow> world \<Rightarrow> world" where
  "sendMessage conn message s =
     (case conn of None \<Rightarrow> s | Some n \<Rightarrow> snd (WriteJSON n message s))"

section \<open>The four events\<close>

definition session_joined :: "string \<Rightarrow> string \<Rightarrow> Message" where
  "session_joined sessionID clientID =
     \<lparr>m_Type = ''session_joined'',
      m_Payload = [(''sessionId'', sessionID), (''clientId'', clientID)]\<rparr>"

definition client_joined :: "string \<Rightarrow> Message" where
  "client_joined clientID =
     \<lparr>m_Type = ''client_joined'', m_Payload = [(''clientId'', clientID)]\<rparr>"

definition client_left :: "string \<Rightarrow> Message" where
  "client_left clientID =
     \<lparr>m_Type = ''client_left'', m_Payload = [(''clientId'', clientID)]\<rparr>"

definition screen_data :: "string \<Rightarrow> string \<Rightarrow> Message" where
  "screen_data clientID payload =
     \<lparr>m_Type = ''screen_data'',
      m_Payload = [(''clientId'', clientID), (''data'', payload)]\<rparr>"

section \<open>The handlers\<close>

text \<open>
  Every handler runs from its first line to its last without another handler
  in between; the interleavings that the unlocked stretches of
  \<open>handleWebSocket\<close> allow are not part of this model.

  What a handler takes from outside is an argument: \<open>req\<close> is the name that
  \<open>ShouldBindJSON\<close> found in the request body (\<open>None\<close> when the body has none; the
  \<open>required\<close> binding rejects the empty name as well), \<open>now\<close> is what
  \<open>getCurrentTimestamp\<close> returns, \<open>rnd\<close> are the draws of \<open>generateID\<close>, and
  \<open>upgrade_ok\<close> says whether \<open>upgrader.Upgrade\<close> succeeded.  A successful upgrade
  yields a connection that did not exist before, a \<open>createSession\<close> a session object
  at an address that was not in use.
\<close>

definition broadcast_step :: "Message \<Rightarrow> string \<Rightarrow> string \<times> Client \<Rightarrow> world \<Rightarrow> world" where
  "broadcast_step message excludeClientID e s =
     (if fst e \<noteq> excludeClientID then sendMessage (c_Conn (snd e)) message s else s)"

definition broadcastToSession :: "string \<Rightarrow> Message \<Rightarrow> string \<Rightarrow> world \<Rightarrow> world" where
  "broadcastToSession sessionID message excludeClientID s =
     (case store_Sessions s sessionID of
        None \<Rightarrow> s
      | Some session \<Rightarrow>
          fold (broadcast_step message excludeClientID) (s_Clients (heap s session)) s)"

definition createSession :: "string option \<Rightarrow> (nat \<Rightarrow> nat) \<Rightarrow> int \<Rightarrow> world \<Rightarrow> response \<times> world" where
  "createSession req rnd now s =
     (case req of
        None \<Rightarrow> (StatusBadRequest, s)
      | Some name \<Rightarrow>
          if name = [] then (StatusBadRequest, s)
          else
            let sid = generateID rnd;
                session = \<lparr>s_ID = sid, s_Name = name, s_CreatedAt = now, s_Clients = []\<rparr>;
                a = next_addr s
            in (StatusCreated session,
                s\<lparr>heap := (heap s)(a := session), next_addr := Suc a,
                  store_Sessions := (store_Sessions s)(sid \<mapsto> a)\<rparr>))"

definition getSession :: "string \<Rightarrow> world \<Rightarrow> response" where
  "getSession sid s =
     (case store_Sessions s sid of
        None \<Rightarrow> StatusNotFound
      | Some session \<Rightarrow> StatusOK (heap s session))"

definition delete_step :: "string \<times> Client \<Rightarrow> world \<Rightarrow> world" where
  "delete_step e s =
     (let s1 = (case c_Conn (snd e) of None \<Rightarrow> s | Some n \<Rightarrow> Close n s)
      in s1\<lparr>store_Clients := (store_Clients s1)(c_ID (snd e) := None)\<rparr>)"

definition deleteSession :: "string \<Rightarrow> world \<Rightarrow> response \<times> world" where
  "deleteSession sid s =
     (case store_Sessions s sid of
        None \<Rightarrow> (StatusNotFound, s)
      | Some session \<Rightarrow>
          let s1 = fold delete_step (s_Clients (heap s session)) s
          in (StatusNoContent, s1\<lparr>store_Sessions := (store_Sessions s1)(sid := None)\<rparr>))"

definition handleWebSocket :: "string \<Rightarrow> bool \<Rightarrow> (nat \<Rightarrow> nat) \<Rightarrow> world \<Rightarrow> response \<times> world" where
  "handleWebSocket sessionID upgrade_ok rnd s =
     (case store_Sessions s sessionID of
        None \<Rightarrow> (StatusNotFound, s)
      | Some session \<Rightarrow>
          if \<not> upgrade_ok then (UpgradeFailed, s)
          else
            let conn = next_conn s;
                s1 = s\<lparr>conns := (conns s)(conn := \<lparr>closed = False, sent = []\<rparr>),
                       next_conn := Suc conn\<rparr>;
                clientID = generateID rnd;
                client = \<lparr>c_ID = clientID, c_Name = [], c_Conn = Some conn,
                          c_SessionID = sessionID\<rparr>;
                s2 = s1\<lparr>store_Clients := (store_Clients s1)(clientID \<mapsto> client),
                        heap := (heap s1)(session := (heap s1 session)
                          \<lparr>s_Clients := AList.update clientID client (s_Clients (heap s1 session))\<rparr>)\<rparr>;
                s3 = sendMessage (Some conn) (session_joined sessionID clientID) s2;
                s4 = broadcastToSession sessionID (client_joined clientID) clientID s3
            in (SwitchingProtocols, s4\<lparr>handlers := handlers s4 @ [(client, session)]\<rparr>))"

text \<open>
  \<open>handleMessages\<close>: \<open>relay\<close> is one turn of the loop after a successful read,
  \<open>leave\<close> is the deferred function, and \<open>handleMessages\<close> runs the loop on
  what the peer provides, read by read, until the first failed read; the end of the list
  is the end of the stream, where the read fails too.  A loop that ends is a loop with
  finitely many successful reads, so every such loop is \<open>handleMessages\<close> on some list.
  The arguments are the goroutine's: its client and the address of its session object.
\<close>

definition relay :: "Client \<Rightarrow> nat \<Rightarrow> string \<Rightarrow> world \<Rightarrow> world" where
  "relay client session message s =
     broadcastToSession (s_ID (heap s session)) (screen_data (c_ID client) message) (c_ID client) s"

definition leave :: "Client \<Rightarrow> nat \<Rightarrow> world \<Rightarrow> world" where
  "leave client session s =
     (let s1 = (case c_Conn client of None \<Rightarrow> s | Some n \<Rightarrow> Close n s);
          s2 = s1\<lparr>store_Clients := (store_Clients s1)(c_ID client := None),
                  heap := (heap s1)(session := (heap s1 session)
                    \<lparr>s_Clients := AList.delete (c_ID client) (s_Clients (heap s1 session))\<rparr>)\<rparr>
      in broadcastToSession (s_ID (heap s2 session)) (client_left (c_ID client)) [] s2)"


section \<open>Runs of the server\<close>

text \<open>
  An event is one request served, or one read of one running goroutine.  A
  goroutine whose read fails runs its deferred function and is gone.
\<close>

datatype event =
  CreateSession "string option" "nat \<Rightarrow> nat" int
  | DeleteSession string
  | WebSocket string bool "nat \<Rightarrow> nat"
  | Read nat "string option"

definition read_event :: "nat \<Rightarrow> string option \<Rightarrow> world \<Rightarrow> world" where
  "read_event k peer s =
     (if k < length (handlers s) then
        let client = fst (handlers s ! k); session = snd (handlers s ! k)
        in (case ReadMessage (c_Conn client) peer s of
              None \<Rightarrow> (leave client session s)
                        \<lparr>handlers := take k (handlers s) @ drop (Suc k) (handlers s)\<rparr>
            | Some message \<Rightarrow> relay client session message s)
      else s)"

fun step :: "event \<Rightarrow> world \<Rightarrow> world" where
  "step (CreateSession req rnd now) s = snd (createSession req rnd now s)"
| "step (DeleteSession sid) s = snd (deleteSession sid s)"
| "step (WebSocket sessionID upgrade_ok rnd) s = snd (handleWebSocket sessionID upgrade_ok rnd s)"
| "step (Read k peer) s = read_event k peer s"

fun run :: "event list \<Rightarrow> world \<Rightarrow> world" where
  "run [] s = s"
| "run (e # es) s = run es (step e s)"

section \<open>Invariants, generated ids and an example run\<close>

text \<open>
  ASCII strings: every byte is below \<open>0x80\<close>.  The ids that \<open>generateID\<close> returns and
  the names of the events and of their fields are ASCII, and the JSON text of an ASCII
  string reads as that string.
\<close>

definition is_ascii :: "string \<Rightarrow> bool" where
  "is_ascii s \<longleftrightarrow> list_all (\<lambda>b. (of_char b :: nat) < 0x80) s"

text \<open>
  How often one broadcast over the entries \<open>xs\<close> writes to connection \<open>n\<close>: once for
  every entry whose key is not the excluded id and whose client holds that connection.
\<close>

definition deliveries :: "string \<Rightarrow> (string \<times> Client) list \<Rightarrow> nat \<Rightarrow> nat" where
  "deliveries ex xs n = length (filter (\<lambda>e. fst e \<noteq> ex \<and> c_Conn (snd e) = Some n) xs)"

text \<open>
  \<open>participant s a i c\<close>: the session at address \<open>a\<close> has client \<open>c\<close> under the key \<open>i\<close>.
\<close>

definition participant :: "world \<Rightarrow> nat \<Rightarrow> string \<Rightarrow> Client \<Rightarrow> bool" where
  "participant s a i c \<longleftrightarrow> map_of (s_Clients (heap s a)) i = Some c"

text \<open>
  Well-formed states.  None of the conditions needs the generated ids to differ, and every
  state the server reaches meets them (lemma \<open>wellformed_run\<close> below):
  a stored session is allocated and is stored under its own id (\<open>wf_reg\<close>); the keys of a
  participant map are distinct (\<open>wf_keys\<close>); a participant is filed under its own id, which
  is not empty, carries its session's id and holds an allocated connection (\<open>wf_part\<close>); no
  two participants share a connection (\<open>wf_inj\<close>); the participants of a stored session have
  open connections (\<open>wf_open\<close>); a running goroutine holds an allocated session with its
  client's session id, and its connection is held by no participant but, possibly, the one
  under its own id in its own session (\<open>wf_hand\<close>); no two goroutines share a connection
  (\<open>wf_dist\<close>).
\<close>

definition wf_reg :: "world \<Rightarrow> bool" where
  "wf_reg s \<longleftrightarrow> (\<forall>k a. store_Sessions s k = Some a \<longrightarrow> a < next_addr s \<and> s_ID (heap s a) = k)"

definition wf_keys :: "world \<Rightarrow> bool" where
  "wf_keys s \<longleftrightarrow> (\<forall>a. distinct (map fst (s_Clients (heap s a))))"

definition wf_part :: "world \<Rightarrow> bool" where
  "wf_part s \<longleftrightarrow>
     (\<forall>a i c. participant s a i c \<longrightarrow>
        i \<noteq> [] \<and> c_ID c = i \<and> c_SessionID c = s_ID (heap s a) \<and>
        (\<exists>n<next_conn s. c_Conn c = Some n))"

definition wf_inj :: "world \<Rightarrow> bool" where
  "wf_inj s \<longleftrightarrow>
     (\<forall>a a' i i' c c'. participant s a i c \<longrightarrow> participant s a' i' c' \<longrightarrow>
        c_Conn c = c_Conn c' \<longrightarrow> a = a' \<and> i = i')"

definition wf_open :: "world \<Rightarrow> bool" where
  "wf_open s \<longleftrightarrow>
     (\<forall>k a i c n. store_Sessions s k = Some a \<longrightarrow> participant s a i c \<longrightarrow>
        c_Conn c = Some n \<longrightarrow> \<not> closed (conns s n))"

definition wf_hand :: "world \<Rightarrow> bool" where
  "wf_hand s \<longleftrightarrow>
     (\<forall>c a. (c, a) \<in> set (handlers s) \<longrightarrow>
        a < next_addr s \<and> c_SessionID c = s_ID (heap s a) \<and>
        (\<exists>n<next_conn s. c_Conn c = Some n) \<and>
        (\<forall>a' i c'. participant s a' i c' \<longrightarrow> c_Conn c' = c_Conn c \<longrightarrow> a' = a \<and> i = c_ID c))"

definition wf_dist :: "world \<Rightarrow> bool" where
  "wf_dist s \<longleftrightarrow> distinct (map (c_Conn \<circ> fst) (handlers s))"

definition wellformed :: "world \<Rightarrow> bool" where
  "wellformed s \<longleftrightarrow> wf_reg s \<and> wf_keys s \<and> wf_part s \<and> wf_inj s \<and> wf_open s \<and> wf_hand s \<and> wf_dist s"

text \<open>
  \<open>same_but_sent s s'\<close>: the two states differ at most in what was written to the
  connections.
\<close>

definition same_but_sent :: "world \<Rightarrow> world \<Rightarrow> bool" where
  "same_but_sent s s' \<longleftrightarrow>
     store_Sessions s' = store_Sessions s \<and> store_Clients s' = store_Clients s \<and>
     heap s' = heap s \<and> next_addr s' = next_addr s \<and> next_conn s' = next_conn s \<and>
     handlers s' = handlers s \<and> (\<forall>n. closed (conns s' n) = closed (conns s n))"

text \<open> The client that \<open>handleWebSocket\<close> builds after a successful upgrade. \<close>

definition new_client :: "string \<Rightarrow> (nat \<Rightarrow> nat) \<Rightarrow> world \<Rightarrow> Client" where
  "new_client sessionID rnd s =
     \<lparr>c_ID = generateID rnd, c_Name = [], c_Conn = Some (next_conn s), c_SessionID = sessionID\<rparr>"

text \<open>
  The ids of a state are generated ones.  Every id the server files something under comes
  from \<open>generateID\<close>, so it is ASCII: the ids under which sessions are stored, the keys of
  the participant maps and the ids of the clients of the running goroutines.  Every state
  the server reaches meets the condition (lemma \<open>ids_ascii_run\<close> below).
\<close>

definition ids_ascii :: "world \<Rightarrow> bool" where
  "ids_ascii s \<longleftrightarrow>
     (\<forall>k a. store_Sessions s k = Some a \<longrightarrow> is_ascii k) \<and>
     (\<forall>a i c. participant s a i c \<longrightarrow> is_ascii i) \<and>
     (\<forall>c a. (c, a) \<in> set (handlers s) \<longrightarrow> is_ascii (c_ID c))"

text \<open>
  Consistent states.  These conditions hold as long as no generated id repeats:
  a stored session has exactly the clients that the global index files under its id
  (\<open>con_idx\<close>); every client of the global index names a stored session (\<open>con_reg\<close>); the
  client of a running goroutine is either registered (its session is stored, it is in the
  global index) or gone with its session (the session is not stored, the client is not in
  the index, its connection is closed) (\<open>con_hand\<close>).  \<open>invariant\<close> is well-formed and
  consistent; lemma \<open>inv_run\<close> below shows it after every run whose generated ids are
  distinct.
\<close>

definition con_idx :: "world \<Rightarrow> bool" where
  "con_idx s \<longleftrightarrow>
     (\<forall>k a i c. store_Sessions s k = Some a \<longrightarrow>
        (participant s a i c \<longleftrightarrow> store_Clients s i = Some c \<and> c_SessionID c = k))"

definition con_reg :: "world \<Rightarrow> bool" where
  "con_reg s \<longleftrightarrow> (\<forall>i c. store_Clients s i = Some c \<longrightarrow> store_Sessions s (c_SessionID c) \<noteq> None)"

definition con_hand :: "world \<Rightarrow> bool" where
  "con_hand s \<longleftrightarrow>
     (\<forall>c a. (c, a) \<in> set (handlers s) \<longrightarrow>
        (store_Sessions s (c_SessionID c) = Some a \<and> store_Clients s (c_ID c) = Some c) \<or>
        (store_Sessions s (c_SessionID c) = None \<and> store_Clients s (c_ID c) = None \<and>
         (\<forall>n. c_Conn c = Some n \<longrightarrow> closed (conns s n))))"

definition consistent :: "world \<Rightarrow> bool" where
  "consistent s \<longleftrightarrow> con_idx s \<and> con_reg s \<and> con_hand s"

definition invariant :: "world \<Rightarrow> bool" where
  "invariant s \<longleftrightarrow> wellformed s \<and> consistent s"

text \<open>
  The invariant of the data model as the specification words it: the participant ids of
  every stored session are the ids the global index files under that session, and every
  index entry names a stored session.
\<close>

definition registry_consistent :: "world \<Rightarrow> bool" where
  "registry_consistent s \<longleftrightarrow>
     (\<forall>k a. store_Sessions s k = Some a \<longrightarrow>
        fst ` set (s_Clients (heap s a)) =
          {i. \<exists>c. store_Clients s i = Some c \<and> c_SessionID c = k}) \<and>
     (\<forall>i c. store_Clients s i = Some c \<longrightarrow> (\<exists>a. store_Sessions s (c_SessionID c) = Some a))"

text \<open>
  A generated id is fresh when neither the store nor a running goroutine knows it.
\<close>

definition fresh_session :: "world \<Rightarrow> string \<Rightarrow> bool" where
  "fresh_session s k \<longleftrightarrow>
     store_Sessions s k = None \<and> (\<forall>c a. (c, a) \<in> set (handlers s) \<longrightarrow> c_SessionID c \<noteq> k)"

definition fresh_client :: "world \<Rightarrow> string \<Rightarrow> bool" where
  "fresh_client s i \<longleftrightarrow>
     store_Clients s i = None \<and> (\<forall>c a. (c, a) \<in> set (handlers s) \<longrightarrow> c_ID c \<noteq> i)"

text \<open> The ids that the events of a run generate, and the ids a state knows. \<close>

fun event_sessions :: "event \<Rightarrow> string list" where
  "event_sessions (CreateSession req rnd now) = [generateID rnd]"
| "event_sessions _ = []"

fun event_clients :: "event \<Rightarrow> string list" where
  "event_clients (WebSocket sessionID upgrade_ok rnd) = [generateID rnd]"
| "event_clients _ = []"

definition session_ids :: "event list \<Rightarrow> string list" where
  "session_ids es = concat (map event_sessions es)"

definition client_ids :: "event list \<Rightarrow> string list" where
  "client_ids es = concat (map event_clients es)"

definition known_sessions :: "world \<Rightarrow> string set" where
  "known_sessions s = dom (store_Sessions s) \<union> (c_SessionID \<circ> fst) ` set (handlers s)"

definition known_clients :: "world \<Rightarrow> string set" where
  "known_clients s = dom (store_Clients s) \<union> (c_ID \<circ> fst) ` set (handlers s)"

text \<open>
  An example run: a session named Demo with two clients and a session named Other with one;
  \<open>demo\<close> is the state it ends in (lemma \<open>run_demo\<close>).
\<close>

definition demo_events :: "event list" where
  "demo_events =
     [CreateSession (Some ''Demo'') (\<lambda>_. 0) 1700000000,
      WebSocket ''id_aaaaaaaa'' True (\<lambda>_. 27),
      WebSocket ''id_aaaaaaaa'' True (\<lambda>_. 28),
      CreateSession (Some ''Other'') (\<lambda>_. 29) 1700000001,
      WebSocket ''id_DDDDDDDD'' True (\<lambda>_. 30)]"

definition alice :: Client where
  "alice = \<lparr>c_ID = ''id_BBBBBBBB'', c_Name = [], c_Conn = Some 0, c_SessionID = ''id_aaaaaaaa''\<rparr>"

definition bob :: Client where
  "bob = \<lparr>c_ID = ''id_CCCCCCCC'', c_Name = [], c_Conn = Some 1, c_SessionID = ''id_aaaaaaaa''\<rparr>"

definition carol :: Client where
  "carol = \<lparr>c_ID = ''id_EEEEEEEE'', c_Name = [], c_Conn = Some 2, c_SessionID = ''id_DDDDDDDD''\<rparr>"

definition demo :: world where
  "demo =
     \<lparr>store_Sessions = [''id_aaaaaaaa'' \<mapsto> 0, ''id_DDDDDDDD'' \<mapsto> 1],
      store_Clients = [''id_BBBBBBBB'' \<mapsto> alice, ''id_CCCCCCCC'' \<mapsto> bob, ''id_EEEEEEEE'' \<mapsto> carol],
      heap = (heap NewInMemoryStore)
        (0 := \<lparr>s_ID = ''id_aaaaaaaa'', s_Name = ''Demo'', s_CreatedAt = 1700000000,
               s_Clients = [(''id_BBBBBBBB'', alice), (''id_CCCCCCCC'', bob)]\<rparr>,
         1 := \<lparr>s_ID = ''id_DDDDDDDD'', s_Name = ''Other'', s_CreatedAt = 1700000001,
               s_Clients = [(''id_EEEEEEEE'', carol)]\<rparr>),
      next_addr = 2,
      conns = (conns NewInMemoryStore)
        (1 := \<lparr>closed = False,
               sent = [\<lparr>m_Type = ''session_joined'',
                        m_Payload = [(''sessionId'', ''id_aaaaaaaa''), (''clientId'', ''id_CCCCCCCC'')]\<rparr>]\<rparr>,
         0 := \<lparr>closed = False,
               sent = [\<lparr>m_Type = ''session_joined'',
                        m_Payload = [(''sessionId'', ''id_aaaaaaaa''), (''clientId'', ''id_BBBBBBBB'')]\<rparr>,
                       \<lparr>m_Type = ''client_joined'', m_Payload = [(''clientId'', ''id_CCCCCCCC'')]\<rparr>]\<rparr>,
         2 := \<lparr>closed = False,
               sent = [\<lparr>m_Type = ''session_joined'',
                        m_Payload = [(''sessionId'', ''id_DDDDDDDD''), (''clientId'', ''id_EEEEEEEE'')]\<rparr>]\<rparr>),
      next_conn = 3,
      handlers = [(alice, 0), (bob, 0), (carol, 1)]\<rparr>"

text \<open>
  Runs in which \<open>generateID\<close> returns an id a second time.  In \<open>collision_events\<close> two
  clients of different sessions get the same id.  In \<open>replaced_events\<close> a second session
  gets the id of the first, which has two clients, and a third client joins under that id.
  In \<open>same_id_events\<close> two clients of one session get the same id, a third client joins,
  and the first client's read fails.
\<close>

definition collision_events :: "event list" where
  "collision_events =
     [CreateSession (Some ''Demo'') (\<lambda>_. 0) 1700000000,
      CreateSession (Some ''Other'') (\<lambda>_. 29) 1700000001,
      WebSocket ''id_aaaaaaaa'' True (\<lambda>_. 27),
      WebSocket ''id_DDDDDDDD'' True (\<lambda>_. 27)]"

definition replaced_events :: "event list" where
  "replaced_events =
     [CreateSession (Some ''Demo'') (\<lambda>_. 0) 1700000000,
      WebSocket ''id_aaaaaaaa'' True (\<lambda>_. 27),
      WebSocket ''id_aaaaaaaa'' True (\<lambda>_. 28),
      CreateSession (Some ''Again'') (\<lambda>_. 0) 1700000002,
      WebSocket ''id_aaaaaaaa'' True (\<lambda>_. 29)]"

definition same_id_events :: "event list" where
  "same_id_events =
     [CreateSession (Some ''Demo'') (\<lambda>_. 0) 1700000000,
      WebSocket ''id_aaaaaaaa'' True (\<lambda>_. 27),
      WebSocket ''id_aaaaaaaa'' True (\<lambda>_. 27),
      WebSocket ''id_aaaaaaaa'' True (\<lambda>_. 28),
      Read 0 None]"

text \<open>
  The payloads one goroutine relays before its loop ends: what the peer provides up to
  the first failed read, and nothing when the connection is already closed.
\<close>

fun payloads :: "string option list \<Rightarrow> string list" where
  "payloads [] = []"
| "payloads (None # peers) = []"
| "payloads (Some message # peers) = message # payloads peers"

definition received :: "Client \<Rightarrow> string option list \<Rightarrow> world \<Rightarrow> string list" where
  "received client peers s =
     (case c_Conn client of
        None \<Rightarrow> []
      | Some n \<Rightarrow> if closed (conns s n) then [] else payloads peers)"

text \<open>
  The scenario of the specification: a session named Demo is created, two clients join,
  the first sends the payload ping, the second disconnects, the session is deleted.
\<close>

definition scenario_events :: "event list" where
  "scenario_events =
     [CreateSession (Some ''Demo'') (\<lambda>_. 0) 1700000000,
      WebSocket ''id_aaaaaaaa'' True (\<lambda>_. 27),
      WebSocket ''id_aaaaaaaa'' True (\<lambda>_. 28),
      Read 0 (Some ''ping''),
      Read 1 None,
      DeleteSession ''id_aaaaaaaa'']"

section \<open>Properties\<close>

subsection \<open>Strings on the wire\<close>

lemma DecodeRuneInString_ascii:
  "(of_char b :: nat) < 0x80 \<Longrightarrow> DecodeRuneInString (b # bs) = Some 1"
  by (simp add: DecodeRuneInString_def)

lemma ValidString_json_string: "ValidString s \<Longrightarrow> json_string s = s"
  by (induction s rule: json_string.induct) (auto split: option.splits)

lemma is_ascii_ValidString: "is_ascii s \<Longrightarrow> ValidString s"
  by (induction s) (simp_all add: is_ascii_def DecodeRuneInString_ascii)

lemma json_string_ascii: "is_ascii s \<Longrightarrow> json_string s = s"
  by (simp add: ValidString_json_string is_ascii_ValidString)

lemma is_ascii_charset: "is_ascii charset"
  by (simp add: is_ascii_def charset_def)

lemma is_ascii_generateID [simp]: "is_ascii (generateID rnd)"
proof -
  have "\<And>r. charset ! (r mod length charset) \<in> set charset"
    by (rule nth_mem) (simp add: charset_def)
  then have "\<And>r. (of_char (charset ! (r mod length charset)) :: nat) < 0x80"
    using is_ascii_charset by (simp add: is_ascii_def list_all_iff)
  then show ?thesis
    by (simp add: generateID_def randomString_def Intn_def is_ascii_def list_all_iff)
qed

lemma json_names [simp]:
  "json_string ''session_joined'' = ''session_joined''"
  "json_string ''client_joined'' = ''client_joined''"
  "json_string ''client_left'' = ''client_left''"
  "json_string ''screen_data'' = ''screen_data''"
  "json_string ''sessionId'' = ''sessionId''"
  "json_string ''clientId'' = ''clientId''"
  "json_string ''data'' = ''data''"
  by (rule json_string_ascii, simp add: is_ascii_def)+

lemma json_session_joined:
  "is_ascii k \<Longrightarrow> is_ascii i \<Longrightarrow>
     json_Message (session_joined k i) =
       \<lparr>m_Type = ''session_joined'', m_Payload = [(''sessionId'', k), (''clientId'', i)]\<rparr>"
  by (simp add: json_Message_def session_joined_def json_string_ascii del: json_string.simps)

lemma json_client_joined:
  "is_ascii i \<Longrightarrow>
     json_Message (client_joined i) =
       \<lparr>m_Type = ''client_joined'', m_Payload = [(''clientId'', i)]\<rparr>"
  by (simp add: json_Message_def client_joined_def json_string_ascii del: json_string.simps)

lemma json_client_left:
  "is_ascii i \<Longrightarrow>
     json_Message (client_left i) =
       \<lparr>m_Type = ''client_left'', m_Payload = [(''clientId'', i)]\<rparr>"
  by (simp add: json_Message_def client_left_def json_string_ascii del: json_string.simps)

lemma json_screen_data:
  "is_ascii i \<Longrightarrow>
     json_Message (screen_data i payload) =
       \<lparr>m_Type = ''screen_data'',
        m_Payload = [(''clientId'', i), (''data'', json_string payload)]\<rparr>"
  by (simp add: json_Message_def screen_data_def json_string_ascii del: json_string.simps)

subsection \<open>What a broadcast and a deletion change\<close>

lemma sendMessage_fields [simp]:
  "store_Sessions (sendMessage c m s) = store_Sessions s"
  "store_Clients (sendMessage c m s) = store_Clients s"
  "heap (sendMessage c m s) = heap s"
  "next_addr (sendMessage c m s) = next_addr s"
  "next_conn (sendMessage c m s) = next_conn s"
  "handlers (sendMessage c m s) = handlers s"
  by (simp_all add: sendMessage_def WriteJSON_def split: option.splits)

lemma sendMessage_conns:
  "conns (sendMessage c m s) n =
     (if c = Some n \<and> \<not> closed (conns s n)
      then (conns s n)\<lparr>sent := sent (conns s n) @ [json_Message m]\<rparr> else conns s n)"
  by (simp add: sendMessage_def WriteJSON_def split: option.splits)

lemma broadcast_step_fields [simp]:
  "store_Sessions (broadcast_step m ex e s) = store_Sessions s"
  "store_Clients (broadcast_step m ex e s) = store_Clients s"
  "heap (broadcast_step m ex e s) = heap s"
  "next_addr (broadcast_step m ex e s) = next_addr s"
  "next_conn (broadcast_step m ex e s) = next_conn s"
  "handlers (broadcast_step m ex e s) = handlers s"
  by (simp_all add: broadcast_step_def)

lemma broadcast_step_conns:
  "conns (broadcast_step m ex e s) n =
     (if fst e \<noteq> ex \<and> c_Conn (snd e) = Some n \<and> \<not> closed (conns s n)
      then (conns s n)\<lparr>sent := sent (conns s n) @ [json_Message m]\<rparr> else conns s n)"
  by (simp add: broadcast_step_def sendMessage_conns)

lemma delete_step_fields [simp]:
  "store_Sessions (delete_step e s) = store_Sessions s"
  "heap (delete_step e s) = heap s"
  "next_addr (delete_step e s) = next_addr s"
  "next_conn (delete_step e s) = next_conn s"
  "handlers (delete_step e s) = handlers s"
  by (simp_all add: delete_step_def Close_def Let_def split: option.splits)

lemma delete_step_clients:
  "store_Clients (delete_step e s) i = (if i = c_ID (snd e) then None else store_Clients s i)"
  by (simp add: delete_step_def Close_def Let_def split: option.splits)

lemma delete_step_conns:
  "conns (delete_step e s) n =
     (if c_Conn (snd e) = Some n then (conns s n)\<lparr>closed := True\<rparr> else conns s n)"
  by (simp add: delete_step_def Close_def Let_def split: option.splits)

lemma fold_broadcast_fields [simp]:
  "store_Sessions (fold (broadcast_step m ex) xs s) = store_Sessions s"
  "store_Clients (fold (broadcast_step m ex) xs s) = store_Clients s"
  "heap (fold (broadcast_step m ex) xs s) = heap s"
  "next_addr (fold (broadcast_step m ex) xs s) = next_addr s"
  "next_conn (fold (broadcast_step m ex) xs s) = next_conn s"
  "handlers (fold (broadcast_step m ex) xs s) = handlers s"
  by (induction xs arbitrary: s; simp)+

lemma fold_broadcast_conns:
  "conns (fold (broadcast_step m ex) xs s) n =
     (if closed (conns s n) then conns s n
      else (conns s n)\<lparr>sent := sent (conns s n) @ replicate (deliveries ex xs n) (json_Message m)\<rparr>)"
proof (induction xs arbitrary: s)
  case Nil
  show ?case by (simp add: deliveries_def)
next
  case (Cons e xs)
  show ?case
    by (simp add: Cons.IH broadcast_step_conns deliveries_def replicate_app_Cons_same)
qed

lemma broadcastToSession_fields [simp]:
  "store_Sessions (broadcastToSession k m ex s) = store_Sessions s"
  "store_Clients (broadcastToSession k m ex s) = store_Clients s"
  "heap (broadcastToSession k m ex s) = heap s"
  "next_addr (broadcastToSession k m ex s) = next_addr s"
  "next_conn (broadcastToSession k m ex s) = next_conn s"
  "handlers (broadcastToSession k m ex s) = handlers s"
  by (simp_all add: broadcastToSession_def split: option.splits)

lemma broadcastToSession_conns:
  "conns (broadcastToSession k m ex s) n =
     (case store_Sessions s k of None \<Rightarrow> conns s n
      | Some a \<Rightarrow> if closed (conns s n) then conns s n
          else (conns s n)\<lparr>sent := sent (conns s n) @ replicate (deliveries ex (s_Clients (heap s a)) n) (json_Message m)\<rparr>)"
  by (simp add: broadcastToSession_def fold_broadcast_conns split: option.splits)

lemma fold_delete_fields [simp]:
  "store_Sessions (fold delete_step xs s) = store_Sessions s"
  "heap (fold delete_step xs s) = heap s"
  "next_addr (fold delete_step xs s) = next_addr s"
  "next_conn (fold delete_step xs s) = next_conn s"
  "handlers (fold delete_step xs s) = handlers s"
  by (induction xs arbitrary: s; simp)+

lemma fold_delete_clients:
  "store_Clients (fold delete_step xs s) i =
     (if i \<in> (c_ID \<circ> snd) ` set xs then None else store_Clients s i)"
  by (induction xs arbitrary: s) (auto simp: delete_step_clients)

lemma fold_delete_conns:
  "conns (fold delete_step xs s) n =
     (if Some n \<in> (c_Conn \<circ> snd) ` set xs then (conns s n)\<lparr>closed := True\<rparr> else conns s n)"
  by (induction xs arbitrary: s) (auto simp: delete_step_conns)

subsection \<open>Counting deliveries\<close>

lemma deliveries_update [simp]: "deliveries ex (AList.update ex c xs) n = deliveries ex xs n"
  by (induction xs) (auto simp: deliveries_def)

lemma deliveries_zero:
  "\<forall>e \<in> set xs. fst e \<noteq> ex \<longrightarrow> c_Conn (snd e) \<noteq> Some n \<Longrightarrow> deliveries ex xs n = 0"
  by (induction xs) (auto simp: deliveries_def)

lemma deliveries_one:
  assumes "distinct (map fst xs)"
    and "(j, c) \<in> set xs" and "j \<noteq> ex" and "c_Conn c = Some n"
    and "\<forall>e \<in> set xs. c_Conn (snd e) = Some n \<longrightarrow> fst e = j"
  shows "deliveries ex xs n = 1"
  using assms
proof (induction xs)
  case Nil
  then show ?case by simp
next
  case (Cons e xs)
  show ?case
  proof (cases "e = (j, c)")
    case True
    have "\<forall>e' \<in> set xs. fst e' \<noteq> ex \<longrightarrow> c_Conn (snd e') \<noteq> Some n"
      using Cons.prems True by force
    then have "deliveries ex xs n = 0" by (rule deliveries_zero)
    then show ?thesis using True Cons.prems by (simp add: deliveries_def)
  next
    case False
    then have in_xs: "(j, c) \<in> set xs" using Cons.prems by auto
    then have "j \<in> fst ` set xs" by force
    then have "fst e \<noteq> j" using Cons.prems(1) by auto
    then have ne: "c_Conn (snd e) \<noteq> Some n" using Cons.prems(5) by auto
    have "deliveries ex xs n = 1"
      using Cons.IH Cons.prems in_xs by auto
    then show ?thesis using ne by (simp add: deliveries_def)
  qed
qed

subsection \<open>Well-formed states: creating a session, relaying\<close>

lemmas wf_defs = wf_reg_def wf_keys_def wf_part_def wf_inj_def wf_open_def wf_hand_def wf_dist_def

lemma same_but_sent_broadcast: "same_but_sent s (broadcastToSession k m ex s)"
  by (simp add: same_but_sent_def broadcastToSession_conns split: option.splits)

lemma same_but_sent_relay: "same_but_sent s (relay c a p s)"
  by (simp add: relay_def same_but_sent_broadcast)

lemma same_but_sent_wf: "same_but_sent s s' \<Longrightarrow> wellformed s \<Longrightarrow> wellformed s'"
  by (simp add: same_but_sent_def wellformed_def wf_defs participant_def)

lemma wf_createSession: "wellformed s \<Longrightarrow> wellformed (snd (createSession req rnd now s))"
  unfolding wellformed_def
  apply (cases req; simp add: createSession_def Let_def)
  apply (intro conjI impI)
        apply (auto simp: wf_defs participant_def less_Suc_eq)
  done

subsection \<open>Well-formed states: leaving, deleting a session\<close>

lemma leave_fields [simp]:
  "store_Sessions (leave c a s) = store_Sessions s"
  "store_Clients (leave c a s) = (store_Clients s)(c_ID c := None)"
  "heap (leave c a s) = (heap s)(a := (heap s a)\<lparr>s_Clients := AList.delete (c_ID c) (s_Clients (heap s a))\<rparr>)"
  "next_addr (leave c a s) = next_addr s"
  "next_conn (leave c a s) = next_conn s"
  "handlers (leave c a s) = handlers s"
  by (simp_all add: leave_def Let_def Close_def split: option.splits)

lemma leave_closed:
  "closed (conns (leave c a s) n) \<longleftrightarrow> closed (conns s n) \<or> c_Conn c = Some n"
  by (auto simp add: leave_def Let_def Close_def broadcastToSession_conns split: option.splits)

lemma participant_leave:
  "participant (leave c a s) a' i c' \<longleftrightarrow> participant s a' i c' \<and> \<not> (a' = a \<and> i = c_ID c)"
  by (auto simp: participant_def delete_conv')

lemma wf_regD: "wellformed s \<Longrightarrow> store_Sessions s k = Some a \<Longrightarrow> a < next_addr s \<and> s_ID (heap s a) = k"
  by (simp add: wellformed_def wf_reg_def)

lemma wf_partD:
  "wellformed s \<Longrightarrow> participant s a i c \<Longrightarrow>
     i \<noteq> [] \<and> c_ID c = i \<and> c_SessionID c = s_ID (heap s a) \<and> (\<exists>n<next_conn s. c_Conn c = Some n)"
  by (simp add: wellformed_def wf_part_def)

lemma wf_injD:
  "wellformed s \<Longrightarrow> participant s a i c \<Longrightarrow> participant s a' i' c' \<Longrightarrow> c_Conn c = c_Conn c' \<Longrightarrow>
     a = a' \<and> i = i'"
  unfolding wellformed_def wf_inj_def by blast

lemma wf_openD:
  "wellformed s \<Longrightarrow> store_Sessions s k = Some a \<Longrightarrow> participant s a i c \<Longrightarrow> c_Conn c = Some n \<Longrightarrow>
     \<not> closed (conns s n)"
  unfolding wellformed_def wf_open_def by blast

lemma wf_handD:
  "wellformed s \<Longrightarrow> (c, a) \<in> set (handlers s) \<Longrightarrow>
     a < next_addr s \<and> c_SessionID c = s_ID (heap s a) \<and> (\<exists>n<next_conn s. c_Conn c = Some n)"
  unfolding wellformed_def wf_hand_def by blast

lemma wf_hand_only:
  "wellformed s \<Longrightarrow> (c, a) \<in> set (handlers s) \<Longrightarrow> participant s a' i c' \<Longrightarrow> c_Conn c' = c_Conn c \<Longrightarrow>
     a' = a \<and> i = c_ID c"
  unfolding wellformed_def wf_hand_def by blast

lemma wellformed_leave:
  assumes "wellformed s" and "(c, a) \<in> set (handlers s)"
  shows "wellformed (leave c a s)"
proof -
  have 1: "wf_reg (leave c a s)" using assms(1) by (auto simp: wellformed_def wf_reg_def)
  have 2: "wf_keys (leave c a s)" using assms(1) by (auto simp: wellformed_def wf_keys_def distinct_delete)
  have 3: "wf_part (leave c a s)" using assms(1)
    unfolding wellformed_def wf_part_def participant_leave by (auto simp: participant_def)
  have 4: "wf_inj (leave c a s)" using assms(1)
    unfolding wellformed_def wf_inj_def participant_leave by blast
  have 5: "wf_open (leave c a s)"
    unfolding wf_open_def participant_leave leave_closed leave_fields
    using wf_openD [OF assms(1)] wf_hand_only [OF assms] by metis
  have 6: "wf_hand (leave c a s)" using assms(1)
    unfolding wellformed_def wf_hand_def participant_leave leave_fields by (auto simp: participant_def)
  have 7: "wf_dist (leave c a s)" using assms(1) by (simp add: wellformed_def wf_dist_def)
  show ?thesis using 1 2 3 4 5 6 7 by (simp add: wellformed_def)
qed

lemma deleteSession_fields [simp]:
  "heap (snd (deleteSession k s)) = heap s"
  "next_addr (snd (deleteSession k s)) = next_addr s"
  "next_conn (snd (deleteSession k s)) = next_conn s"
  "handlers (snd (deleteSession k s)) = handlers s"
  "store_Sessions (snd (deleteSession k s)) = (store_Sessions s)(k := None)"
  by (auto simp add: deleteSession_def Let_def split: option.splits)

lemma deleteSession_clients:
  "store_Clients (snd (deleteSession k s)) i =
     (case store_Sessions s k of None \<Rightarrow> store_Clients s i
      | Some a \<Rightarrow> if i \<in> (c_ID \<circ> snd) ` set (s_Clients (heap s a)) then None else store_Clients s i)"
  by (simp add: deleteSession_def Let_def fold_delete_clients split: option.splits)

lemma deleteSession_conns:
  "conns (snd (deleteSession k s)) n =
     (case store_Sessions s k of None \<Rightarrow> conns s n
      | Some a \<Rightarrow> if Some n \<in> (c_Conn \<circ> snd) ` set (s_Clients (heap s a))
                  then (conns s n)\<lparr>closed := True\<rparr> else conns s n)"
  by (simp add: deleteSession_def Let_def fold_delete_conns split: option.splits)

lemma participant_deleteSession [simp]:
  "participant (snd (deleteSession k s)) a i c = participant s a i c"
  by (simp add: participant_def)

lemma participant_set:
  "wf_keys s \<Longrightarrow> (i, c) \<in> set (s_Clients (heap s a)) \<longleftrightarrow> participant s a i c"
  by (simp add: wf_keys_def participant_def)

lemma wf_deleteSession:
  assumes "wellformed s"
  shows "wellformed (snd (deleteSession k s))"
proof -
  let ?s = "snd (deleteSession k s)"
  have 1: "wf_reg ?s" using assms by (auto simp: wellformed_def wf_reg_def)
  have 2: "wf_keys ?s" using assms by (auto simp: wellformed_def wf_keys_def)
  have 3: "wf_part ?s" using assms by (simp add: wellformed_def wf_part_def)
  have 4: "wf_inj ?s" using assms by (simp add: wellformed_def wf_inj_def)
  have 6: "wf_hand ?s" using assms by (simp add: wellformed_def wf_hand_def)
  have 7: "wf_dist ?s" using assms by (simp add: wellformed_def wf_dist_def)
  have 5: "wf_open ?s"
    unfolding wf_open_def
  proof (intro allI impI)
    fix k' a' i c n
    assume reg: "store_Sessions ?s k' = Some a'" and p: "participant ?s a' i c"
      and cn: "c_Conn c = Some n"
    from reg have kk: "k' \<noteq> k" and reg': "store_Sessions s k' = Some a'"
      by (auto split: if_splits)
    from p have p': "participant s a' i c" by simp
    have op: "\<not> closed (conns s n)" using assms reg' p' cn by (auto simp: wellformed_def wf_open_def)
    show "\<not> closed (conns ?s n)"
    proof (cases "store_Sessions s k")
      case None
      then show ?thesis using op by (simp add: deleteSession_conns)
    next
      case (Some a)
      have "a \<noteq> a'" using assms Some reg' kk by (auto simp: wellformed_def wf_reg_def)
      have "Some n \<notin> (c_Conn \<circ> snd) ` set (s_Clients (heap s a))"
      proof
        assume "Some n \<in> (c_Conn \<circ> snd) ` set (s_Clients (heap s a))"
        then obtain j d where "(j, d) \<in> set (s_Clients (heap s a))" "c_Conn d = Some n"
          by force
        then have "participant s a j d" using assms by (simp add: participant_set wellformed_def)
        then have "a = a'" using assms p' cn \<open>c_Conn d = Some n\<close>
          unfolding wellformed_def wf_inj_def by metis
        then show False using \<open>a \<noteq> a'\<close> by simp
      qed
      then show ?thesis using op Some by (simp add: deleteSession_conns)
    qed
  qed
  show ?thesis using 1 2 3 4 5 6 7 by (simp add: wellformed_def)
qed

subsection \<open>Well-formed states: joining\<close>

lemma handleWebSocket_fail:
  "store_Sessions s k = None \<or> \<not> up \<Longrightarrow> snd (handleWebSocket k up rnd s) = s"
  by (auto simp: handleWebSocket_def split: option.splits)

lemma handleWebSocket_fields:
  assumes "store_Sessions s k = Some a"
  shows "store_Sessions (snd (handleWebSocket k True rnd s)) = store_Sessions s"
    and "store_Clients (snd (handleWebSocket k True rnd s)) =
           (store_Clients s)(generateID rnd \<mapsto> new_client k rnd s)"
    and "heap (snd (handleWebSocket k True rnd s)) =
           (heap s)(a := (heap s a)\<lparr>s_Clients :=
              AList.update (generateID rnd) (new_client k rnd s) (s_Clients (heap s a))\<rparr>)"
    and "next_addr (snd (handleWebSocket k True rnd s)) = next_addr s"
    and "next_conn (snd (handleWebSocket k True rnd s)) = Suc (next_conn s)"
    and "handlers (snd (handleWebSocket k True rnd s)) = handlers s @ [(new_client k rnd s, a)]"
  using assms by (simp_all add: handleWebSocket_def Let_def new_client_def)

lemma handleWebSocket_conns:
  assumes "store_Sessions s k = Some a"
  shows "conns (snd (handleWebSocket k True rnd s)) n =
     (if n = next_conn s
      then \<lparr>closed = False,
            sent = json_Message (session_joined k (generateID rnd)) #
              replicate (deliveries (generateID rnd) (s_Clients (heap s a)) n) (json_Message (client_joined (generateID rnd)))\<rparr>
      else if closed (conns s n) then conns s n
      else (conns s n)\<lparr>sent := sent (conns s n) @
              replicate (deliveries (generateID rnd) (s_Clients (heap s a)) n) (json_Message (client_joined (generateID rnd)))\<rparr>)"
  using assms
  by (simp add: handleWebSocket_def Let_def broadcastToSession_conns sendMessage_conns)

lemma handleWebSocket_closed:
  assumes "store_Sessions s k = Some a"
  shows "closed (conns (snd (handleWebSocket k True rnd s)) n) \<longleftrightarrow> n \<noteq> next_conn s \<and> closed (conns s n)"
  using assms by (simp add: handleWebSocket_conns)

lemma participant_handleWebSocket:
  assumes "store_Sessions s k = Some a"
  shows "participant (snd (handleWebSocket k True rnd s)) a' i c \<longleftrightarrow>
     (if a' = a \<and> i = generateID rnd then c = new_client k rnd s else participant s a' i c)"
  using assms by (auto simp: participant_def handleWebSocket_fields update_conv')

lemma generateID_nonempty [simp]: "generateID rnd \<noteq> []"
  by (simp add: generateID_def)

lemma new_client_simps [simp]:
  "c_ID (new_client k rnd s) = generateID rnd"
  "c_Conn (new_client k rnd s) = Some (next_conn s)"
  "c_SessionID (new_client k rnd s) = k"
  by (simp_all add: new_client_def)

lemma wellformed_handleWebSocket:
  assumes w: "wellformed s"
  shows "wellformed (snd (handleWebSocket k up rnd s))"
proof (cases "store_Sessions s k = None \<or> \<not> up")
  case True
  then show ?thesis using w by (simp add: handleWebSocket_fail)
next
  case False
  then obtain a where reg: "store_Sessions s k = Some a" and up: "up" by auto
  let ?s = "snd (handleWebSocket k True rnd s)"
  note f = handleWebSocket_fields [OF reg]
  note p = participant_handleWebSocket [OF reg]
  have old_lt: "\<And>a' i c n. participant s a' i c \<Longrightarrow> c_Conn c = Some n \<Longrightarrow> n < next_conn s"
    using wf_partD [OF w] by fastforce
  have old_ne: "\<And>a' i c. participant s a' i c \<Longrightarrow> c_Conn c = Some (next_conn s) \<Longrightarrow> False"
    "\<And>a' i c. participant s a' i c \<Longrightarrow> Some (next_conn s) = c_Conn c \<Longrightarrow> False"
    using old_lt by (fastforce, metis less_irrefl old_lt)
  have 1: "wf_reg ?s" using w by (auto simp: wellformed_def wf_reg_def f)
  have 2: "wf_keys ?s" using w by (auto simp: wellformed_def wf_keys_def f distinct_update)
  have 3: "wf_part ?s"
    unfolding wf_part_def
  proof (intro allI impI)
    fix a' i c
    assume pc: "participant ?s a' i c"
    show "i \<noteq> [] \<and> c_ID c = i \<and> c_SessionID c = s_ID (heap ?s a') \<and>
            (\<exists>n<next_conn ?s. c_Conn c = Some n)"
    proof (cases "a' = a \<and> i = generateID rnd")
      case True
      then have "c = new_client k rnd s" using pc by (simp add: p)
      then show ?thesis using True wf_regD [OF w reg] by (simp add: f)
    next
      case False
      then have "participant s a' i c" using pc by (simp add: p)
      from wf_partD [OF w this] obtain n where
        "i \<noteq> []" "c_ID c = i" "c_SessionID c = s_ID (heap s a')" "n < next_conn s" "c_Conn c = Some n"
        by blast
      then show ?thesis by (auto simp: f)
    qed
  qed
  have new_conn: "\<And>a' i c. participant ?s a' i c \<Longrightarrow> c_Conn c = Some (next_conn s) \<Longrightarrow>
      a' = a \<and> i = generateID rnd"
    using old_lt by (fastforce simp: p split: if_splits)
  have old_part: "\<And>a' i c. participant ?s a' i c \<Longrightarrow> c_Conn c \<noteq> Some (next_conn s) \<Longrightarrow>
      participant s a' i c"
    by (auto simp: p split: if_splits)
  have 4: "wf_inj ?s"
    unfolding wf_inj_def
  proof (intro allI impI)
    fix a1 a2 i1 i2 c1 c2
    assume p1: "participant ?s a1 i1 c1" and p2: "participant ?s a2 i2 c2"
      and eq: "c_Conn c1 = c_Conn c2"
    show "a1 = a2 \<and> i1 = i2"
    proof (cases "c_Conn c1 = Some (next_conn s)")
      case True
      then show ?thesis using new_conn [OF p1] new_conn [OF p2] eq by simp
    next
      case False
      then show ?thesis using wf_injD [OF w old_part [OF p1] old_part [OF p2]] eq by simp
    qed
  qed
  have 5: "wf_open ?s"
    unfolding wf_open_def
  proof (intro allI impI)
    fix k' a' i c n
    assume r: "store_Sessions ?s k' = Some a'" and pc: "participant ?s a' i c"
      and cn: "c_Conn c = Some n"
    show "\<not> closed (conns ?s n)"
    proof (cases "n = next_conn s")
      case True
      then show ?thesis by (simp add: handleWebSocket_closed [OF reg])
    next
      case False
      then have "participant s a' i c" using old_part [OF pc] cn by simp
      then have "\<not> closed (conns s n)" using wf_openD [OF w _ _ cn] r by (simp add: f)
      then show ?thesis by (simp add: handleWebSocket_closed [OF reg])
    qed
  qed
  have 6: "wf_hand ?s"
    unfolding wf_hand_def
  proof (intro allI impI)
    fix c a'
    assume h: "(c, a') \<in> set (handlers ?s)"
    show "a' < next_addr ?s \<and> c_SessionID c = s_ID (heap ?s a') \<and>
        (\<exists>n<next_conn ?s. c_Conn c = Some n) \<and>
        (\<forall>a'' i c'. participant ?s a'' i c' \<longrightarrow> c_Conn c' = c_Conn c \<longrightarrow> a'' = a' \<and> i = c_ID c)"
    proof (cases "(c, a') = (new_client k rnd s, a)")
      case True
      then show ?thesis using wf_regD [OF w reg] new_conn by (auto simp: f)
    next
      case False
      then have h': "(c, a') \<in> set (handlers s)" using h by (auto simp: f)
      from wf_handD [OF w h'] obtain n where
        n: "a' < next_addr s" "c_SessionID c = s_ID (heap s a')" "n < next_conn s" "c_Conn c = Some n"
        by blast
      have "\<forall>a'' i c'. participant ?s a'' i c' \<longrightarrow> c_Conn c' = c_Conn c \<longrightarrow> a'' = a' \<and> i = c_ID c"
      proof (intro allI impI)
        fix a'' i c'
        assume pc: "participant ?s a'' i c'" and eq: "c_Conn c' = c_Conn c"
        have "c_Conn c' \<noteq> Some (next_conn s)" using eq n by simp
        from wf_hand_only [OF w h' old_part [OF pc this] eq]
        show "a'' = a' \<and> i = c_ID c" .
      qed
      then show ?thesis using n by (auto simp: f)
    qed
  qed
  have 7: "wf_dist ?s"
    using w wf_handD [OF w] by (fastforce simp: wellformed_def wf_dist_def f)
  show ?thesis using 1 2 3 4 5 6 7 up by (simp add: wellformed_def)
qed

subsection \<open>Well-formed states: every run\<close>

lemma wellformed_init: "wellformed NewInMemoryStore"
  by (simp add: wellformed_def wf_defs NewInMemoryStore_def participant_def)

lemma distinct_take_drop:
  assumes d: "distinct xs"
  shows "distinct (take k xs @ drop (Suc k) xs)"
proof -
  have "distinct (take k xs @ drop k xs)" using d by simp
  then have a: "distinct (take k xs)" and c: "set (take k xs) \<inter> set (drop k xs) = {}"
    unfolding distinct_append by blast+
  have "set (drop (Suc k) xs) \<subseteq> set (drop k xs)" by (rule set_drop_subset_set_drop) simp
  then have "set (take k xs) \<inter> set (drop (Suc k) xs) = {}" using c by blast
  then show ?thesis unfolding distinct_append using a d by simp
qed

lemma wellformed_handlers:
  assumes w: "wellformed s" and sub: "set hs \<subseteq> set (handlers s)"
    and d: "distinct (map (c_Conn \<circ> fst) hs)"
  shows "wellformed (s\<lparr>handlers := hs\<rparr>)"
proof -
  let ?s = "s\<lparr>handlers := hs\<rparr>"
  have 7: "wf_dist ?s" using d by (simp add: wf_dist_def)
  have 1: "wf_reg ?s" using w by (simp add: wellformed_def wf_reg_def)
  have 2: "wf_keys ?s" using w by (simp add: wellformed_def wf_keys_def)
  have 3: "wf_part ?s" using w by (simp add: wellformed_def wf_part_def participant_def)
  have 4: "wf_inj ?s" using w by (simp add: wellformed_def wf_inj_def participant_def)
  have 5: "wf_open ?s" using w by (simp add: wellformed_def wf_open_def participant_def)
  have 6: "wf_hand ?s"
    unfolding wf_hand_def
  proof (intro allI impI)
    fix c a
    assume "(c, a) \<in> set (handlers ?s)"
    then have h: "(c, a) \<in> set (handlers s)" using sub by auto
    have "wf_hand s" using w by (simp add: wellformed_def)
    then have "a < next_addr s \<and> c_SessionID c = s_ID (heap s a) \<and>
        (\<exists>n<next_conn s. c_Conn c = Some n) \<and>
        (\<forall>a' i c'. participant s a' i c' \<longrightarrow> c_Conn c' = c_Conn c \<longrightarrow> a' = a \<and> i = c_ID c)"
      using h unfolding wf_hand_def by blast
    then show "a < next_addr ?s \<and> c_SessionID c = s_ID (heap ?s a) \<and>
        (\<exists>n<next_conn ?s. c_Conn c = Some n) \<and>
        (\<forall>a' i c'. participant ?s a' i c' \<longrightarrow> c_Conn c' = c_Conn c \<longrightarrow> a' = a \<and> i = c_ID c)"
      by (simp add: participant_def)
  qed
  show ?thesis using 1 2 3 4 5 6 7 by (simp add: wellformed_def)
qed

lemma set_take_drop: "set (take k xs @ drop (Suc k) xs) \<subseteq> set xs"
  by (auto dest: in_set_takeD in_set_dropD)

lemma wellformed_read_event:
  assumes w: "wellformed s"
  shows "wellformed (read_event k peer s)"
proof (cases "k < length (handlers s)")
  case False
  then show ?thesis using w by (simp add: read_event_def)
next
  case True
  obtain c a where ca: "handlers s ! k = (c, a)" by (cases "handlers s ! k")
  then have h: "(c, a) \<in> set (handlers s)" using True by (metis nth_mem)
  show ?thesis
  proof (cases "ReadMessage (c_Conn c) peer s")
    case None
    have wl: "wellformed (leave c a s)" using w h by (rule wellformed_leave)
    have "distinct (map (c_Conn \<circ> fst) (handlers s))" using w by (simp add: wellformed_def wf_dist_def)
    then have "distinct (take k (map (c_Conn \<circ> fst) (handlers s)) @
        drop (Suc k) (map (c_Conn \<circ> fst) (handlers s)))"
      by (rule distinct_take_drop)
    then have dd: "distinct (map (c_Conn \<circ> fst) (take k (handlers s) @ drop (Suc k) (handlers s)))"
      by (simp only: take_map drop_map map_append)
    have ss: "set (take k (handlers s) @ drop (Suc k) (handlers s)) \<subseteq> set (handlers (leave c a s))"
      using set_take_drop [of k "handlers s"] by (simp only: leave_fields)
    have "wellformed ((leave c a s)\<lparr>handlers := take k (handlers s) @ drop (Suc k) (handlers s)\<rparr>)"
      using wl ss dd by (rule wellformed_handlers)
    then show ?thesis using True ca None by (simp add: read_event_def)
  next
    case (Some m)
    have "wellformed (relay c a m s)" using same_but_sent_wf [OF same_but_sent_relay w] .
    then show ?thesis using True ca Some by (simp add: read_event_def)
  qed
qed

lemma wellformed_step: "wellformed s \<Longrightarrow> wellformed (step e s)"
  by (cases e) (simp_all add: wf_createSession wf_deleteSession wellformed_handleWebSocket wellformed_read_event)

lemma wellformed_run_from: "wellformed s \<Longrightarrow> wellformed (run es s)"
  by (induction es arbitrary: s) (simp_all add: wellformed_step)

lemma wellformed_run: "wellformed (run es NewInMemoryStore)"
  by (simp add: wellformed_run_from wellformed_init)

subsection \<open>Generated ids: every run\<close>

lemma ids_ascii_sessionD: "ids_ascii s \<Longrightarrow> store_Sessions s k = Some a \<Longrightarrow> is_ascii k"
  unfolding ids_ascii_def by blast

lemma ids_ascii_participantD: "ids_ascii s \<Longrightarrow> participant s a i c \<Longrightarrow> is_ascii i"
  unfolding ids_ascii_def by blast

lemma ids_ascii_handlerD: "ids_ascii s \<Longrightarrow> (c, a) \<in> set (handlers s) \<Longrightarrow> is_ascii (c_ID c)"
  unfolding ids_ascii_def by blast

lemma ids_ascii_init: "ids_ascii NewInMemoryStore"
  by (simp add: ids_ascii_def NewInMemoryStore_def participant_def)

lemma same_but_sent_ids_ascii: "same_but_sent s s' \<Longrightarrow> ids_ascii s \<Longrightarrow> ids_ascii s'"
  by (simp add: same_but_sent_def ids_ascii_def participant_def)

lemma ids_ascii_createSession: "ids_ascii s \<Longrightarrow> ids_ascii (snd (createSession req rnd now s))"
  by (auto simp: ids_ascii_def createSession_def Let_def participant_def
      split: option.splits if_splits)

lemma ids_ascii_deleteSession: "ids_ascii s \<Longrightarrow> ids_ascii (snd (deleteSession sid s))"
  by (auto simp: ids_ascii_def split: if_splits)

lemma ids_ascii_handleWebSocket:
  assumes i: "ids_ascii s"
  shows "ids_ascii (snd (handleWebSocket k up rnd s))"
proof (cases "store_Sessions s k = None \<or> \<not> up")
  case True
  then show ?thesis using i by (simp add: handleWebSocket_fail)
next
  case False
  then obtain a where reg: "store_Sessions s k = Some a" and up: "up = True" by auto
  note f = handleWebSocket_fields [OF reg]
  show ?thesis
    unfolding ids_ascii_def up
  proof (intro conjI allI impI)
    fix k' a'
    assume "store_Sessions (snd (handleWebSocket k True rnd s)) k' = Some a'"
    then show "is_ascii k'" using ids_ascii_sessionD [OF i, of k' a'] by (simp add: f)
  next
    fix a' i' c'
    assume "participant (snd (handleWebSocket k True rnd s)) a' i' c'"
    then show "is_ascii i'"
      using ids_ascii_participantD [OF i, of a' i' c']
      by (auto simp: participant_handleWebSocket [OF reg] split: if_splits)
  next
    fix c' a'
    assume "(c', a') \<in> set (handlers (snd (handleWebSocket k True rnd s)))"
    then show "is_ascii (c_ID c')" using ids_ascii_handlerD [OF i, of c' a'] by (auto simp: f)
  qed
qed

lemma ids_ascii_leave:
  assumes i: "ids_ascii s"
  shows "ids_ascii (leave c a s)"
  unfolding ids_ascii_def
proof (intro conjI allI impI)
  fix k' a'
  assume "store_Sessions (leave c a s) k' = Some a'"
  then show "is_ascii k'" using ids_ascii_sessionD [OF i, of k' a'] by simp
next
  fix a' i' c'
  assume "participant (leave c a s) a' i' c'"
  then show "is_ascii i'" using ids_ascii_participantD [OF i, of a' i' c'] by (simp add: participant_leave)
next
  fix c' a'
  assume "(c', a') \<in> set (handlers (leave c a s))"
  then show "is_ascii (c_ID c')" using ids_ascii_handlerD [OF i, of c' a'] by simp
qed

lemma ids_ascii_read_event: "ids_ascii s \<Longrightarrow> ids_ascii (read_event k peer s)"
proof (cases "k < length (handlers s)")
  case False
  assume "ids_ascii s"
  then show ?thesis using False by (simp add: read_event_def)
next
  case True
  assume i: "ids_ascii s"
  let ?c = "fst (handlers s ! k)" and ?a = "snd (handlers s ! k)"
  show ?thesis
  proof (cases "ReadMessage (c_Conn ?c) peer s")
    case None
    have l: "ids_ascii (leave ?c ?a s)" using i by (rule ids_ascii_leave)
    have "ids_ascii ((leave ?c ?a s)\<lparr>handlers := take k (handlers s) @ drop (Suc k) (handlers s)\<rparr>)"
      unfolding ids_ascii_def
    proof (intro conjI allI impI)
      fix k' a'
      assume "store_Sessions ((leave ?c ?a s)\<lparr>handlers := take k (handlers s) @ drop (Suc k) (handlers s)\<rparr>) k' = Some a'"
      then show "is_ascii k'" using ids_ascii_sessionD [OF l, of k' a'] by simp
    next
      fix a' i' c'
      assume "participant ((leave ?c ?a s)\<lparr>handlers := take k (handlers s) @ drop (Suc k) (handlers s)\<rparr>) a' i' c'"
      then have "participant (leave ?c ?a s) a' i' c'" by (simp add: participant_def)
      then show "is_ascii i'" using ids_ascii_participantD [OF l] by blast
    next
      fix c' a'
      assume "(c', a') \<in> set (handlers ((leave ?c ?a s)\<lparr>handlers := take k (handlers s) @ drop (Suc k) (handlers s)\<rparr>))"
      then have "(c', a') \<in> set (handlers s)" using set_take_drop [of k "handlers s"] by auto
      then show "is_ascii (c_ID c')" using ids_ascii_handlerD [OF i] by blast
    qed
    then show ?thesis using True None by (simp add: read_event_def Let_def)
  next
    case (Some m)
    have "ids_ascii (relay ?c ?a m s)"
      using same_but_sent_ids_ascii [OF same_but_sent_relay i] .
    then show ?thesis using True Some by (simp add: read_event_def Let_def)
  qed
qed

lemma ids_ascii_step: "ids_ascii s \<Longrightarrow> ids_ascii (step e s)"
  by (cases e)
     (simp_all add: ids_ascii_createSession ids_ascii_deleteSession ids_ascii_handleWebSocket
        ids_ascii_read_event)

lemma ids_ascii_run_from: "ids_ascii s \<Longrightarrow> ids_ascii (run es s)"
  by (induction es arbitrary: s) (simp_all add: ids_ascii_step)

lemma ids_ascii_run: "ids_ascii (run es NewInMemoryStore)"
  by (rule ids_ascii_run_from [OF ids_ascii_init])

subsection \<open>Consistent states: creating a session, joining\<close>

lemma con_idxD:
  "consistent s \<Longrightarrow> store_Sessions s k = Some a \<Longrightarrow>
     participant s a i c \<longleftrightarrow> store_Clients s i = Some c \<and> c_SessionID c = k"
  unfolding consistent_def con_idx_def by blast

lemma con_regD:
  "consistent s \<Longrightarrow> store_Clients s i = Some c \<Longrightarrow> \<exists>a. store_Sessions s (c_SessionID c) = Some a"
  unfolding consistent_def con_reg_def by blast

lemma con_handD:
  "consistent s \<Longrightarrow> (c, a) \<in> set (handlers s) \<Longrightarrow>
     (store_Sessions s (c_SessionID c) = Some a \<and> store_Clients s (c_ID c) = Some c) \<or>
     (store_Sessions s (c_SessionID c) = None \<and> store_Clients s (c_ID c) = None \<and>
      (\<forall>n. c_Conn c = Some n \<longrightarrow> closed (conns s n)))"
  unfolding consistent_def con_hand_def by blast

lemma consistent_init: "consistent NewInMemoryStore"
  by (simp add: consistent_def con_idx_def con_reg_def con_hand_def NewInMemoryStore_def)

lemma same_but_sent_consistent: "same_but_sent s s' \<Longrightarrow> consistent s \<Longrightarrow> consistent s'"
  by (simp add: same_but_sent_def consistent_def con_idx_def con_reg_def con_hand_def participant_def)

lemma createSession_fields:
  assumes "name \<noteq> []"
  shows "store_Sessions (snd (createSession (Some name) rnd now s)) =
           (store_Sessions s)(generateID rnd \<mapsto> next_addr s)"
    and "store_Clients (snd (createSession (Some name) rnd now s)) = store_Clients s"
    and "heap (snd (createSession (Some name) rnd now s)) =
           (heap s)(next_addr s := \<lparr>s_ID = generateID rnd, s_Name = name, s_CreatedAt = now, s_Clients = []\<rparr>)"
    and "next_addr (snd (createSession (Some name) rnd now s)) = Suc (next_addr s)"
    and "next_conn (snd (createSession (Some name) rnd now s)) = next_conn s"
    and "conns (snd (createSession (Some name) rnd now s)) = conns s"
    and "handlers (snd (createSession (Some name) rnd now s)) = handlers s"
  using assms by (simp_all add: createSession_def Let_def)

lemma createSession_invalid:
  "req = None \<or> req = Some [] \<Longrightarrow> createSession req rnd now s = (StatusBadRequest, s)"
  by (auto simp: createSession_def)

lemma consistent_createSession:
  assumes w: "wellformed s" and c: "consistent s" and fr: "fresh_session s (generateID rnd)"
  shows "consistent (snd (createSession req rnd now s))"
proof (cases "req = None \<or> req = Some []")
  case True
  then show ?thesis using c by (simp add: createSession_invalid)
next
  case False
  then obtain name where req: "req = Some name" and ne: "name \<noteq> []" by auto
  let ?s = "snd (createSession (Some name) rnd now s)"
  let ?k = "generateID rnd"
  note f = createSession_fields [OF ne]
  have fr1: "store_Sessions s ?k = None"
    and fr2: "\<And>c a. (c, a) \<in> set (handlers s) \<Longrightarrow> c_SessionID c \<noteq> ?k"
    using fr unfolding fresh_session_def by blast+
  have 1: "con_idx ?s"
    unfolding con_idx_def
  proof (intro allI impI)
    fix k a i c
    assume r: "store_Sessions ?s k = Some a"
    show "participant ?s a i c \<longleftrightarrow> store_Clients ?s i = Some c \<and> c_SessionID c = k"
    proof (cases "k = ?k")
      case True
      then have "a = next_addr s" using r by (simp add: f)
      then have "\<not> participant ?s a i c" by (simp add: participant_def f)
      moreover have "\<not> (store_Clients s i = Some c \<and> c_SessionID c = k)"
        using con_regD [OF c] fr1 True by fastforce
      ultimately show ?thesis by (simp add: f)
    next
      case False
      then have r': "store_Sessions s k = Some a" using r by (simp add: f)
      then have "a \<noteq> next_addr s" using wf_regD [OF w] by fastforce
      then have "participant ?s a i c = participant s a i c" by (simp add: participant_def f)
      then show ?thesis using con_idxD [OF c r'] by (simp add: f)
    qed
  qed
  have 2: "con_reg ?s"
    unfolding con_reg_def f using con_regD [OF c] by fastforce
  have 3: "con_hand ?s"
    unfolding con_hand_def
  proof (intro allI impI)
    fix c' a
    assume "(c', a) \<in> set (handlers ?s)"
    then have h: "(c', a) \<in> set (handlers s)" by (simp add: f)
    have "c_SessionID c' \<noteq> ?k" using fr2 [OF h] .
    then show "(store_Sessions ?s (c_SessionID c') = Some a \<and> store_Clients ?s (c_ID c') = Some c') \<or>
        (store_Sessions ?s (c_SessionID c') = None \<and> store_Clients ?s (c_ID c') = None \<and>
         (\<forall>n. c_Conn c' = Some n \<longrightarrow> closed (conns ?s n)))"
      using con_handD [OF c h] by (simp add: f)
  qed
  show ?thesis using 1 2 3 req by (simp add: consistent_def)
qed

lemma consistent_handleWebSocket:
  assumes w: "wellformed s" and c: "consistent s" and fr: "fresh_client s (generateID rnd)"
  shows "consistent (snd (handleWebSocket k up rnd s))"
proof (cases "store_Sessions s k = None \<or> \<not> up")
  case True
  then show ?thesis using c by (simp add: handleWebSocket_fail)
next
  case False
  then obtain a where reg: "store_Sessions s k = Some a" and up: "up" by auto
  let ?s = "snd (handleWebSocket k True rnd s)"
  let ?i = "generateID rnd"
  let ?c = "new_client k rnd s"
  note f = handleWebSocket_fields [OF reg]
  note p = participant_handleWebSocket [OF reg]
  have fr1: "store_Clients s ?i = None"
    and fr2: "\<And>c a. (c, a) \<in> set (handlers s) \<Longrightarrow> c_ID c \<noteq> ?i"
    using fr unfolding fresh_client_def by blast+
  have 1: "con_idx ?s"
    unfolding con_idx_def
  proof (intro allI impI)
    fix k' a' j c'
    assume "store_Sessions ?s k' = Some a'"
    then have r: "store_Sessions s k' = Some a'" by (simp add: f)
    note old = con_idxD [OF c r]
    show "participant ?s a' j c' \<longleftrightarrow> store_Clients ?s j = Some c' \<and> c_SessionID c' = k'"
    proof (cases "j = ?i")
      case False
      then show ?thesis using old by (simp add: p f)
    next
      case True
      have no: "\<not> participant s a' ?i c'" using old fr1 by simp
      show ?thesis
      proof (cases "a' = a")
        case True
        then have "k' = k" using wf_regD [OF w r] wf_regD [OF w reg] by simp
        then show ?thesis using True \<open>j = ?i\<close> by (auto simp: p f)
      next
        case False
        then have "k' \<noteq> k" using r reg by auto
        then show ?thesis using False \<open>j = ?i\<close> no by (auto simp: p f)
      qed
    qed
  qed
  have 2: "con_reg ?s"
    unfolding con_reg_def f using con_regD [OF c] reg by (auto split: if_splits)
  have 3: "con_hand ?s"
    unfolding con_hand_def
  proof (intro allI impI)
    fix c' a'
    assume h: "(c', a') \<in> set (handlers ?s)"
    show "(store_Sessions ?s (c_SessionID c') = Some a' \<and> store_Clients ?s (c_ID c') = Some c') \<or>
        (store_Sessions ?s (c_SessionID c') = None \<and> store_Clients ?s (c_ID c') = None \<and>
         (\<forall>n. c_Conn c' = Some n \<longrightarrow> closed (conns ?s n)))"
    proof (cases "(c', a') \<in> set (handlers s)")
      case True
      have ne: "c_ID c' \<noteq> ?i" using fr2 [OF True] .
      obtain n where n: "c_Conn c' = Some n" "n < next_conn s" using wf_handD [OF w True] by blast
      then have "closed (conns ?s n) = closed (conns s n)"
        by (simp add: handleWebSocket_closed [OF reg])
      then show ?thesis using con_handD [OF c True] ne n by (auto simp: f)
    next
      case False
      then have "(c', a') = (?c, a)" using h by (simp add: f)
      then show ?thesis using reg by (simp add: f)
    qed
  qed
  show ?thesis using 1 2 3 up by (simp add: consistent_def)
qed

subsection \<open>Consistent states: deleting a session, leaving\<close>

lemma deleteSession_noop: "store_Sessions s k = None \<Longrightarrow> deleteSession k s = (StatusNotFound, s)"
  by (simp add: deleteSession_def)

lemma inv_registry_consistent:
  assumes i: "invariant s"
  shows "registry_consistent s"
proof -
  have w: "wellformed s" and c: "consistent s" using i by (simp_all add: invariant_def)
  have keys: "wf_keys s" using w by (simp add: wellformed_def)
  have 1: "\<forall>k a. store_Sessions s k = Some a \<longrightarrow>
        fst ` set (s_Clients (heap s a)) = {i. \<exists>c. store_Clients s i = Some c \<and> c_SessionID c = k}"
  proof (intro allI impI)
    fix k a
    assume r: "store_Sessions s k = Some a"
    have "\<And>i. i \<in> fst ` set (s_Clients (heap s a)) \<longleftrightarrow> (\<exists>c. participant s a i c)"
      using keys by (force simp: participant_set [symmetric])
    then show "fst ` set (s_Clients (heap s a)) =
        {i. \<exists>c. store_Clients s i = Some c \<and> c_SessionID c = k}"
      using con_idxD [OF c r] by auto
  qed
  have 2: "\<forall>i d. store_Clients s i = Some d \<longrightarrow> (\<exists>a. store_Sessions s (c_SessionID d) = Some a)"
    using con_regD [OF c] by blast
  show ?thesis using 1 2 by (simp add: registry_consistent_def)
qed

lemma deleteSession_clients_inv:
  assumes w: "wellformed s" and rc: "registry_consistent s" and reg: "store_Sessions s k = Some a"
  shows "store_Clients (snd (deleteSession k s)) i =
     (case store_Clients s i of None \<Rightarrow> None
      | Some d \<Rightarrow> if c_SessionID d = k then None else Some d)"
proof -
  have keys: "wf_keys s" using w by (simp add: wellformed_def)
  have ids: "fst ` set (s_Clients (heap s a)) =
      {i. \<exists>c. store_Clients s i = Some c \<and> c_SessionID c = k}"
    using rc reg unfolding registry_consistent_def by blast
  have "i \<in> (c_ID \<circ> snd) ` set (s_Clients (heap s a)) \<longleftrightarrow> i \<in> fst ` set (s_Clients (heap s a))"
  proof
    assume "i \<in> (c_ID \<circ> snd) ` set (s_Clients (heap s a))"
    then obtain j d where jd: "(j, d) \<in> set (s_Clients (heap s a))" "i = c_ID d" by force
    then have "participant s a j d" using keys by (simp add: participant_set)
    then have "j = i" using wf_partD [OF w] jd by blast
    then show "i \<in> fst ` set (s_Clients (heap s a))" using jd by force
  next
    assume "i \<in> fst ` set (s_Clients (heap s a))"
    then obtain d where d: "(i, d) \<in> set (s_Clients (heap s a))" by force
    then have "participant s a i d" using keys by (simp add: participant_set)
    then have "c_ID d = i" using wf_partD [OF w] by blast
    then show "i \<in> (c_ID \<circ> snd) ` set (s_Clients (heap s a))" using d by force
  qed
  then have "i \<in> (c_ID \<circ> snd) ` set (s_Clients (heap s a)) \<longleftrightarrow>
      (\<exists>d. store_Clients s i = Some d \<and> c_SessionID d = k)"
    using ids by simp
  then show ?thesis using reg by (auto simp: deleteSession_clients split: option.splits)
qed

lemma deleteSession_closed:
  assumes w: "wellformed s" and reg: "store_Sessions s k = Some a"
  shows "closed (conns (snd (deleteSession k s)) n) \<longleftrightarrow>
     closed (conns s n) \<or> (\<exists>i d. participant s a i d \<and> c_Conn d = Some n)"
proof -
  have keys: "wf_keys s" using w by (simp add: wellformed_def)
  have "Some n \<in> (c_Conn \<circ> snd) ` set (s_Clients (heap s a)) \<longleftrightarrow>
      (\<exists>i d. participant s a i d \<and> c_Conn d = Some n)"
    using keys by (force simp: participant_set [symmetric])
  then show ?thesis using reg by (auto simp: deleteSession_conns)
qed

lemma consistent_deleteSession:
  assumes w: "wellformed s" and c: "consistent s"
  shows "consistent (snd (deleteSession k s))"
proof (cases "store_Sessions s k")
  case None
  then show ?thesis using c by (simp add: deleteSession_noop)
next
  case (Some a)
  let ?s = "snd (deleteSession k s)"
  have rc: "registry_consistent s" using w c by (intro inv_registry_consistent) (simp add: invariant_def)
  note idx = deleteSession_clients_inv [OF w rc Some]
  have 1: "con_idx ?s"
    unfolding con_idx_def
  proof (intro allI impI)
    fix k' a' i d
    assume "store_Sessions ?s k' = Some a'"
    then have kk: "k' \<noteq> k" and r: "store_Sessions s k' = Some a'" by (auto split: if_splits)
    show "participant ?s a' i d \<longleftrightarrow> store_Clients ?s i = Some d \<and> c_SessionID d = k'"
      using con_idxD [OF c r] kk by (auto simp: idx split: option.splits)
  qed
  have 2: "con_reg ?s"
    unfolding con_reg_def
  proof (intro allI impI)
    fix i d
    assume "store_Clients ?s i = Some d"
    then have "store_Clients s i = Some d" "c_SessionID d \<noteq> k"
      by (auto simp: idx split: option.splits if_splits)
    then show "store_Sessions ?s (c_SessionID d) \<noteq> None" using con_regD [OF c] by fastforce
  qed
  have 3: "con_hand ?s"
    unfolding con_hand_def
  proof (intro allI impI)
    fix c' a'
    assume "(c', a') \<in> set (handlers ?s)"
    then have h: "(c', a') \<in> set (handlers s)" by simp
    from con_handD [OF c h]
    show "(store_Sessions ?s (c_SessionID c') = Some a' \<and> store_Clients ?s (c_ID c') = Some c') \<or>
        (store_Sessions ?s (c_SessionID c') = None \<and> store_Clients ?s (c_ID c') = None \<and>
         (\<forall>n. c_Conn c' = Some n \<longrightarrow> closed (conns ?s n)))"
    proof
      assume live: "store_Sessions s (c_SessionID c') = Some a' \<and> store_Clients s (c_ID c') = Some c'"
      show ?thesis
      proof (cases "c_SessionID c' = k")
        case True
        then have "a' = a" using live Some by simp
        then have "participant s a (c_ID c') c'" using con_idxD [OF c Some] live True by simp
        then have "\<forall>n. c_Conn c' = Some n \<longrightarrow> closed (conns ?s n)"
          using deleteSession_closed [OF w Some] by blast
        then show ?thesis using True live by (simp add: idx)
      next
        case False
        then show ?thesis using live by (simp add: idx)
      qed
    next
      assume gone: "store_Sessions s (c_SessionID c') = None \<and> store_Clients s (c_ID c') = None \<and>
         (\<forall>n. c_Conn c' = Some n \<longrightarrow> closed (conns s n))"
      then show ?thesis using deleteSession_closed [OF w Some] by (simp add: idx)
    qed
  qed
  show ?thesis using 1 2 3 by (simp add: consistent_def)
qed

lemma distinct_map_nth_other:
  assumes "distinct (map f xs)" and "k < length xs" and "x \<in> set (take k xs @ drop (Suc k) xs)"
  shows "f x \<noteq> f (xs ! k)"
proof -
  have "xs = take k xs @ xs ! k # drop (Suc k) xs" using assms(2) by (rule id_take_nth_drop)
  then have "map f xs = map f (take k xs) @ f (xs ! k) # map f (drop (Suc k) xs)"
    by (metis list.simps(9) map_append)
  then have "distinct (map f (take k xs) @ f (xs ! k) # map f (drop (Suc k) xs))"
    using assms(1) by simp
  then have "f (xs ! k) \<notin> f ` set (take k xs)" "f (xs ! k) \<notin> f ` set (drop (Suc k) xs)"
    by auto
  then show ?thesis using assms(3) by (metis imageI UnE set_append)
qed

lemma consistent_leave:
  assumes w: "wellformed s" and c: "consistent s" and h: "(d, a) \<in> set (handlers s)"
    and sub: "set hs \<subseteq> set (handlers s)"
    and other: "\<And>x. x \<in> set hs \<Longrightarrow> c_Conn (fst x) \<noteq> c_Conn d"
  shows "consistent ((leave d a s)\<lparr>handlers := hs\<rparr>)"
proof -
  let ?s = "(leave d a s)\<lparr>handlers := hs\<rparr>"
  have pl: "\<And>a' i c'. participant ?s a' i c' \<longleftrightarrow> participant s a' i c' \<and> \<not> (a' = a \<and> i = c_ID d)"
    using participant_leave by (simp add: participant_def)
  have cl: "\<And>n. closed (conns ?s n) \<longleftrightarrow> closed (conns s n) \<or> c_Conn d = Some n"
    using leave_closed by simp
  note hd = con_handD [OF c h]
  have 1: "con_idx ?s"
    unfolding con_idx_def
  proof (intro allI impI)
    fix k a' i c'
    assume "store_Sessions ?s k = Some a'"
    then have r: "store_Sessions s k = Some a'" by simp
    note old = con_idxD [OF c r]
    show "participant ?s a' i c' \<longleftrightarrow> store_Clients ?s i = Some c' \<and> c_SessionID c' = k"
    proof (cases "i = c_ID d")
      case False
      then show ?thesis using old by (simp add: pl)
    next
      case True
      have "\<not> (participant s a' (c_ID d) c' \<and> a' \<noteq> a)"
      proof
        assume as: "participant s a' (c_ID d) c' \<and> a' \<noteq> a"
        then have "store_Clients s (c_ID d) = Some c'" "c_SessionID c' = k" using old by auto
        then show False using hd r as by auto
      qed
      then show ?thesis using True by (auto simp: pl)
    qed
  qed
  have 2: "con_reg ?s"
    unfolding con_reg_def using con_regD [OF c] by (auto split: if_splits)
  have 3: "con_hand ?s"
    unfolding con_hand_def
  proof (intro allI impI)
    fix c' a'
    assume "(c', a') \<in> set (handlers ?s)"
    then have in_hs: "(c', a') \<in> set hs" by simp
    then have h': "(c', a') \<in> set (handlers s)" using sub by auto
    have ne: "c_Conn c' \<noteq> c_Conn d" using other [OF in_hs] by simp
    from con_handD [OF c h']
    show "(store_Sessions ?s (c_SessionID c') = Some a' \<and> store_Clients ?s (c_ID c') = Some c') \<or>
        (store_Sessions ?s (c_SessionID c') = None \<and> store_Clients ?s (c_ID c') = None \<and>
         (\<forall>n. c_Conn c' = Some n \<longrightarrow> closed (conns ?s n)))"
    proof
      assume live: "store_Sessions s (c_SessionID c') = Some a' \<and> store_Clients s (c_ID c') = Some c'"
      have "c_ID c' \<noteq> c_ID d" using hd live ne by auto
      then show ?thesis using live by simp
    next
      assume gone: "store_Sessions s (c_SessionID c') = None \<and> store_Clients s (c_ID c') = None \<and>
         (\<forall>n. c_Conn c' = Some n \<longrightarrow> closed (conns s n))"
      then show ?thesis by (simp add: leave_closed)
    qed
  qed
  show ?thesis using 1 2 3 by (simp add: consistent_def)
qed

lemma consistent_read_event:
  assumes w: "wellformed s" and c: "consistent s"
  shows "consistent (read_event k peer s)"
proof (cases "k < length (handlers s)")
  case False
  then show ?thesis using c by (simp add: read_event_def)
next
  case True
  obtain d a where da: "handlers s ! k = (d, a)" by (cases "handlers s ! k")
  then have h: "(d, a) \<in> set (handlers s)" using True by (metis nth_mem)
  show ?thesis
  proof (cases "ReadMessage (c_Conn d) peer s")
    case None
    have dist: "distinct (map (c_Conn \<circ> fst) (handlers s))" using w by (simp add: wellformed_def wf_dist_def)
    have "\<And>x. x \<in> set (take k (handlers s) @ drop (Suc k) (handlers s)) \<Longrightarrow> c_Conn (fst x) \<noteq> c_Conn d"
      using distinct_map_nth_other [OF dist True] da by simp
    then have "consistent ((leave d a s)\<lparr>handlers := take k (handlers s) @ drop (Suc k) (handlers s)\<rparr>)"
      using consistent_leave [OF w c h set_take_drop] by blast
    then show ?thesis using True da None by (simp add: read_event_def)
  next
    case (Some m)
    have "consistent (relay d a m s)" using same_but_sent_consistent [OF same_but_sent_relay c] .
    then show ?thesis using True da Some by (simp add: read_event_def)
  qed
qed

subsection \<open>Consistent states: runs whose generated ids are distinct\<close>

lemma fresh_sessionI: "k \<notin> known_sessions s \<Longrightarrow> fresh_session s k"
  by (force simp: known_sessions_def fresh_session_def)

lemma fresh_clientI: "i \<notin> known_clients s \<Longrightarrow> fresh_client s i"
  by (force simp: known_clients_def fresh_client_def)

lemma read_event_cases:
  "read_event k peer s = s \<or>
   (\<exists>c a m. read_event k peer s = relay c a m s) \<or>
   (\<exists>c a. read_event k peer s = (leave c a s)\<lparr>handlers := take k (handlers s) @ drop (Suc k) (handlers s)\<rparr>)"
  by (auto simp: read_event_def Let_def split: option.splits)

lemma relay_fields [simp]:
  "store_Sessions (relay c a m s) = store_Sessions s"
  "store_Clients (relay c a m s) = store_Clients s"
  "heap (relay c a m s) = heap s"
  "next_addr (relay c a m s) = next_addr s"
  "next_conn (relay c a m s) = next_conn s"
  "handlers (relay c a m s) = handlers s"
  by (simp_all add: relay_def)

lemma read_event_shrinks:
  "set (handlers (read_event k peer s)) \<subseteq> set (handlers s)"
  "store_Sessions (read_event k peer s) = store_Sessions s"
  "dom (store_Clients (read_event k peer s)) \<subseteq> dom (store_Clients s)"
  using read_event_cases [of k peer s] set_take_drop [of k "handlers s"]
  by (auto split: if_splits)

lemma known_sessions_step: "known_sessions (step e s) \<subseteq> known_sessions s \<union> set (event_sessions e)"
proof (cases e)
  case (CreateSession req rnd now)
  then show ?thesis
    by (cases "req = None \<or> req = Some []")
       (auto simp: known_sessions_def createSession_invalid createSession_fields split: if_splits)
next
  case (DeleteSession k)
  then show ?thesis by (auto simp: known_sessions_def split: if_splits)
next
  case (WebSocket k up rnd)
  show ?thesis
  proof (cases "store_Sessions s k = None \<or> \<not> up")
    case True
    then show ?thesis using WebSocket by (simp add: handleWebSocket_fail)
  next
    case False
    then obtain a where "store_Sessions s k = Some a" "up" by auto
    then show ?thesis using WebSocket
      by (auto simp: known_sessions_def handleWebSocket_fields)
  qed
next
  case (Read k peer)
  have "(c_SessionID \<circ> fst) ` set (handlers (read_event k peer s)) \<subseteq>
      (c_SessionID \<circ> fst) ` set (handlers s)"
    by (rule image_mono) (rule read_event_shrinks)
  then show ?thesis using Read unfolding known_sessions_def
    by (auto simp: read_event_shrinks(2))
qed

lemma known_clients_step: "known_clients (step e s) \<subseteq> known_clients s \<union> set (event_clients e)"
proof (cases e)
  case (CreateSession req rnd now)
  then show ?thesis
    by (cases "req = None \<or> req = Some []")
       (auto simp: known_clients_def createSession_invalid createSession_fields split: if_splits)
next
  case (DeleteSession k)
  then show ?thesis
    by (auto simp: known_clients_def deleteSession_clients dom_def split: if_splits option.splits)
next
  case (WebSocket k up rnd)
  show ?thesis
  proof (cases "store_Sessions s k = None \<or> \<not> up")
    case True
    then show ?thesis using WebSocket by (auto simp: handleWebSocket_fail)
  next
    case False
    then obtain a where "store_Sessions s k = Some a" "up" by auto
    then show ?thesis using WebSocket
      by (auto simp: known_clients_def handleWebSocket_fields split: if_splits)
  qed
next
  case (Read k peer)
  have "(c_ID \<circ> fst) ` set (handlers (read_event k peer s)) \<subseteq> (c_ID \<circ> fst) ` set (handlers s)"
    by (rule image_mono) (rule read_event_shrinks)
  then show ?thesis using Read read_event_shrinks(3) [of k peer s] unfolding known_clients_def
    by auto
qed

lemma inv_step:
  assumes i: "invariant s"
    and fs: "set (event_sessions e) \<inter> known_sessions s = {}"
    and fc: "set (event_clients e) \<inter> known_clients s = {}"
  shows "invariant (step e s)"
proof -
  have w: "wellformed s" and c: "consistent s" using i by (simp_all add: invariant_def)
  have "consistent (step e s)"
  proof (cases e)
    case (CreateSession req rnd now)
    then have "fresh_session s (generateID rnd)" using fs by (auto intro: fresh_sessionI)
    then show ?thesis using CreateSession consistent_createSession [OF w c] by simp
  next
    case (DeleteSession k)
    then show ?thesis using consistent_deleteSession [OF w c] by simp
  next
    case (WebSocket k up rnd)
    then have "fresh_client s (generateID rnd)" using fc by (auto intro: fresh_clientI)
    then show ?thesis using WebSocket consistent_handleWebSocket [OF w c] by simp
  next
    case (Read k peer)
    then show ?thesis using consistent_read_event [OF w c] by simp
  qed
  then show ?thesis using wellformed_step [OF w] by (simp add: invariant_def)
qed

lemma inv_run_from:
  assumes "invariant s"
    and "distinct (session_ids es)" and "set (session_ids es) \<inter> known_sessions s = {}"
    and "distinct (client_ids es)" and "set (client_ids es) \<inter> known_clients s = {}"
  shows "invariant (run es s)"
  using assms
proof (induction es arbitrary: s)
  case Nil
  then show ?case by simp
next
  case (Cons e es)
  have i: "invariant (step e s)"
    using Cons.prems by (intro inv_step) (auto simp: session_ids_def client_ids_def)
  have ks: "set (session_ids es) \<inter> known_sessions (step e s) = {}"
    using Cons.prems(2,3) known_sessions_step [of e s]
    by (auto simp: session_ids_def)
  have kc: "set (client_ids es) \<inter> known_clients (step e s) = {}"
    using Cons.prems(4,5) known_clients_step [of e s]
    by (auto simp: client_ids_def)
  have "invariant (run es (step e s))"
    using Cons.IH [OF i _ ks _ kc] Cons.prems(2,4) by (simp add: session_ids_def client_ids_def)
  then show ?case by simp
qed

lemma inv_init: "invariant NewInMemoryStore"
  by (simp add: invariant_def wellformed_init consistent_init)

lemma inv_run:
  "distinct (session_ids es) \<Longrightarrow> distinct (client_ids es) \<Longrightarrow> invariant (run es NewInMemoryStore)"
  by (rule inv_run_from [OF inv_init])
     (simp_all add: known_sessions_def known_clients_def NewInMemoryStore_def)

subsection \<open>The example run\<close>

lemma randomString_8:
  "randomString 8 rnd = map (\<lambda>i. charset ! (rnd i mod 62)) [0, 1, 2, 3, 4, 5, 6, 7]"
proof -
  have "[0..<8] = [0, 1, 2, 3, 4, 5, 6, 7::nat]" by (simp add: upt_rec)
  moreover have "length charset = 62" by (simp add: charset_def)
  ultimately show ?thesis by (simp add: randomString_def Intn_def)
qed

lemma generateID_const:
  "generateID (\<lambda>_. 0) = ''id_aaaaaaaa''"
  "generateID (\<lambda>_. 27) = ''id_BBBBBBBB''"
  "generateID (\<lambda>_. 28) = ''id_CCCCCCCC''"
  "generateID (\<lambda>_. 29) = ''id_DDDDDDDD''"
  "generateID (\<lambda>_. 30) = ''id_EEEEEEEE''"
  by (simp_all add: generateID_def randomString_8 charset_def)

text \<open>
  The events with the ids of the examples, as they are read from the wire.
\<close>

lemma is_ascii_const [simp]:
  "is_ascii ''id_aaaaaaaa''" "is_ascii ''id_BBBBBBBB''" "is_ascii ''id_CCCCCCCC''"
  "is_ascii ''id_DDDDDDDD''" "is_ascii ''id_EEEEEEEE''"
  by (simp_all add: is_ascii_def)

lemmas json_events = json_session_joined json_client_joined json_client_left json_screen_data

lemmas run_defs = NewInMemoryStore_def createSession_def handleWebSocket_def deleteSession_def
  delete_step_def read_event_def ReadMessage_def relay_def leave_def Close_def Let_def
  generateID_const broadcastToSession_def broadcast_step_def sendMessage_def WriteJSON_def
  json_events

lemma run_demo: "run demo_events NewInMemoryStore = demo"
  by (simp add: demo_events_def demo_def alice_def bob_def carol_def NewInMemoryStore_def
      createSession_def handleWebSocket_def Let_def generateID_const
      broadcastToSession_def broadcast_step_def sendMessage_def WriteJSON_def json_events
      numeral_2_eq_2 numeral_3_eq_3)

subsection \<open>Relay; join on an unknown session\<close>

lemma deliveries_participant:
  assumes w: "wellformed s" and p: "participant s S i c" and ne: "i \<noteq> ex"
    and cn: "c_Conn c = Some n"
  shows "deliveries ex (s_Clients (heap s S)) n = 1"
proof (rule deliveries_one [where j = i and c = c])
  have keys: "wf_keys s" using w by (simp add: wellformed_def)
  show "distinct (map fst (s_Clients (heap s S)))" using keys by (simp add: wf_keys_def)
  show "(i, c) \<in> set (s_Clients (heap s S))" using p keys by (simp add: participant_set)
  show "i \<noteq> ex" by (rule ne)
  show "c_Conn c = Some n" by (rule cn)
  show "\<forall>e \<in> set (s_Clients (heap s S)). c_Conn (snd e) = Some n \<longrightarrow> fst e = i"
  proof (intro ballI impI)
    fix e
    assume e: "e \<in> set (s_Clients (heap s S))" and en: "c_Conn (snd e) = Some n"
    then have "participant s S (fst e) (snd e)"
      using keys participant_set [of s "fst e" "snd e" S] by simp
    from wf_injD [OF w this p] en cn show "fst e = i" by simp
  qed
qed

lemma deliveries_nobody:
  assumes w: "wellformed s"
    and no: "\<And>i c. participant s S i c \<Longrightarrow> i \<noteq> ex \<Longrightarrow> c_Conn c \<noteq> Some n"
  shows "deliveries ex (s_Clients (heap s S)) n = 0"
proof (rule deliveries_zero, intro ballI impI)
  fix e
  assume e: "e \<in> set (s_Clients (heap s S))" and ne: "fst e \<noteq> ex"
  have "wf_keys s" using w by (simp add: wellformed_def)
  then have "participant s S (fst e) (snd e)"
    using e participant_set [of s "fst e" "snd e" S] by simp
  then show "c_Conn (snd e) \<noteq> Some n" using no ne by blast
qed

lemma wellformed_demo: "wellformed demo"
  using wellformed_run [of demo_events] by (simp add: run_demo)

lemma ids_ascii_demo: "ids_ascii demo"
  using ids_ascii_run [of demo_events] by (simp add: run_demo)

text \<open>
  Claim C1, amended.  In a state the server reaches (well-formed, with generated ids), a
  payload relayed from a participant \<open>A\<close> of a stored session \<open>S\<close> is written exactly
  once to the connection of every participant of \<open>S\<close> other than \<open>A\<close>, as an event of
  type \<open>screen_data\<close> whose field \<open>clientId\<close> is \<open>A\<close>'s id and whose field \<open>data\<close> is the
  payload as its JSON text reads: the payload itself when it is valid UTF-8, and otherwise
  the payload with U+FFFD in place of every byte that starts no valid encoding.  Nothing is
  written to \<open>A\<close>'s connection, to the connection of a participant of another session, or
  to any other connection.  That the payload arrives as it was sent fails for bytes that
  are not UTF-8: \<open>relay_payload_counterexample\<close>.
\<close>

theorem relay_reaches_session_once:
  assumes w: "wellformed s" and ids: "ids_ascii s"
    and reg: "store_Sessions s (s_ID (heap s S)) = Some S"
    and mem: "participant s S (c_ID A) A"
  shows "(\<forall>i c. participant s S i c \<longrightarrow> i \<noteq> c_ID A \<longrightarrow>
            (\<exists>n. c_Conn c = Some n \<and> closed (conns (relay A S payload s) n) = closed (conns s n) \<and>
               sent (conns (relay A S payload s) n) =
                 sent (conns s n) @
                 [\<lparr>m_Type = ''screen_data'',
                   m_Payload = [(''clientId'', c_ID A), (''data'', json_string payload)]\<rparr>])) \<and>
         (ValidString payload \<longrightarrow> json_string payload = payload) \<and>
         (\<forall>n. c_Conn A = Some n \<longrightarrow> conns (relay A S payload s) n = conns s n) \<and>
         (\<forall>S' i c n. S' \<noteq> S \<longrightarrow> participant s S' i c \<longrightarrow> c_Conn c = Some n \<longrightarrow>
            conns (relay A S payload s) n = conns s n) \<and>
         (\<forall>n. (\<forall>i c. participant s S i c \<longrightarrow> i \<noteq> c_ID A \<longrightarrow> c_Conn c \<noteq> Some n) \<longrightarrow>
            conns (relay A S payload s) n = conns s n)"
proof -
  let ?m = "\<lparr>m_Type = ''screen_data'',
             m_Payload = [(''clientId'', c_ID A), (''data'', json_string payload)]\<rparr>"
  have "is_ascii (c_ID A)" using ids_ascii_participantD [OF ids mem] .
  then have m: "json_Message (screen_data (c_ID A) payload) = ?m"
    by (simp add: json_Message_def screen_data_def json_string_ascii del: json_string.simps)
  have conns_relay: "\<And>n. conns (relay A S payload s) n =
      (if closed (conns s n) then conns s n
       else (conns s n)\<lparr>sent := sent (conns s n) @
         replicate (deliveries (c_ID A) (s_Clients (heap s S)) n) ?m\<rparr>)"
    using reg by (simp add: relay_def broadcastToSession_conns m)
  have others: "\<And>n. (\<And>i c. participant s S i c \<Longrightarrow> i \<noteq> c_ID A \<Longrightarrow> c_Conn c \<noteq> Some n) \<Longrightarrow>
      conns (relay A S payload s) n = conns s n"
    using deliveries_nobody [OF w] by (simp add: conns_relay)
  have 1: "\<forall>i c. participant s S i c \<longrightarrow> i \<noteq> c_ID A \<longrightarrow>
            (\<exists>n. c_Conn c = Some n \<and> closed (conns (relay A S payload s) n) = closed (conns s n) \<and>
               sent (conns (relay A S payload s) n) = sent (conns s n) @ [?m])"
  proof (intro allI impI)
    fix i c
    assume p: "participant s S i c" and ne: "i \<noteq> c_ID A"
    obtain n where n: "c_Conn c = Some n" using wf_partD [OF w p] by blast
    have op: "\<not> closed (conns s n)" using wf_openD [OF w reg p n] .
    have "deliveries (c_ID A) (s_Clients (heap s S)) n = 1"
      using deliveries_participant [OF w p ne n] .
    then show "\<exists>n. c_Conn c = Some n \<and> closed (conns (relay A S payload s) n) = closed (conns s n) \<and>
               sent (conns (relay A S payload s) n) = sent (conns s n) @ [?m]"
      using n op by (simp add: conns_relay)
  qed
  have 2: "\<forall>n. c_Conn A = Some n \<longrightarrow> conns (relay A S payload s) n = conns s n"
  proof (intro allI impI)
    fix n
    assume an: "c_Conn A = Some n"
    show "conns (relay A S payload s) n = conns s n"
    proof (rule others)
      fix i c
      assume p: "participant s S i c" and ne: "i \<noteq> c_ID A"
      show "c_Conn c \<noteq> Some n" using wf_injD [OF w p mem] ne an by auto
    qed
  qed
  have 3: "\<forall>S' i c n. S' \<noteq> S \<longrightarrow> participant s S' i c \<longrightarrow> c_Conn c = Some n \<longrightarrow>
            conns (relay A S payload s) n = conns s n"
  proof (intro allI impI)
    fix S' i c n
    assume ne: "S' \<noteq> S" and p': "participant s S' i c" and cn: "c_Conn c = Some n"
    show "conns (relay A S payload s) n = conns s n"
    proof (rule others)
      fix j d
      assume p: "participant s S j d"
      show "c_Conn d \<noteq> Some n" using wf_injD [OF w p p'] ne cn by auto
    qed
  qed
  have 4: "\<forall>n. (\<forall>i c. participant s S i c \<longrightarrow> i \<noteq> c_ID A \<longrightarrow> c_Conn c \<noteq> Some n) \<longrightarrow>
            conns (relay A S payload s) n = conns s n"
    using others by blast
  have 5: "ValidString payload \<longrightarrow> json_string payload = payload"
    by (simp add: ValidString_json_string)
  show ?thesis using 1 2 3 4 5 by blast
qed

theorem relay_reaches_session_once_witness:
  "ValidString ''ping'' \<and>
   sent (conns (relay alice 0 ''ping'' demo) 1) =
     sent (conns demo 1) @
     [\<lparr>m_Type = ''screen_data'',
       m_Payload = [(''clientId'', ''id_BBBBBBBB''), (''data'', ''ping'')]\<rparr>] \<and>
   conns (relay alice 0 ''ping'' demo) 0 = conns demo 0 \<and>
   conns (relay alice 0 ''ping'' demo) 2 = conns demo 2"
proof -
  have reg: "store_Sessions demo (s_ID (heap demo 0)) = Some 0" by (simp add: demo_def)
  have mem: "participant demo 0 (c_ID alice) alice" by (simp add: participant_def demo_def alice_def)
  have p2: "participant demo 0 ''id_CCCCCCCC'' bob" by (simp add: participant_def demo_def alice_def bob_def)
  have p3: "participant demo 1 ''id_EEEEEEEE'' carol" by (simp add: participant_def demo_def)
  have v: "ValidString ''ping''" by (rule is_ascii_ValidString) (simp add: is_ascii_def)
  note t = relay_reaches_session_once [OF wellformed_demo ids_ascii_demo reg mem, of "''ping''"]
  from t v have j: "json_string ''ping'' = ''ping''" by blast
  from t p2 have "\<exists>n. c_Conn bob = Some n \<and> closed (conns (relay alice 0 ''ping'' demo) n) = closed (conns demo n) \<and>
      sent (conns (relay alice 0 ''ping'' demo) n) = sent (conns demo n) @
        [\<lparr>m_Type = ''screen_data'',
          m_Payload = [(''clientId'', c_ID alice), (''data'', json_string ''ping'')]\<rparr>]"
    by (simp add: alice_def del: json_string.simps)
  then have a: "sent (conns (relay alice 0 ''ping'' demo) 1) =
      sent (conns demo 1) @
        [\<lparr>m_Type = ''screen_data'',
          m_Payload = [(''clientId'', c_ID alice), (''data'', ''ping'')]\<rparr>]"
    by (simp add: bob_def j del: json_string.simps)
  from t have b: "conns (relay alice 0 ''ping'' demo) 0 = conns demo 0" by (simp add: alice_def)
  from t p3 have c: "conns (relay alice 0 ''ping'' demo) 2 = conns demo 2"
    by (metis carol_def Client.select_convs(3) zero_neq_one)
  show ?thesis using a b c v by (simp add: alice_def del: ValidString.simps)
qed

theorem relay_payload_counterexample:
  "participant demo 0 (c_ID alice) alice \<and> participant demo 0 (c_ID bob) bob \<and>
   store_Sessions demo (s_ID (heap demo 0)) = Some 0 \<and>
   sent (conns (relay alice 0 [CHR 0xFF] demo) 1) =
     sent (conns demo 1) @
     [\<lparr>m_Type = ''screen_data'',
       m_Payload = [(''clientId'', ''id_BBBBBBBB''), (''data'', [CHR 0xEF, CHR 0xBF, CHR 0xBD])]\<rparr>] \<and>
   [CHR 0xEF, CHR 0xBF, CHR 0xBD] \<noteq> [CHR 0xFF]"
  by (simp add: participant_def relay_def broadcastToSession_def broadcast_step_def
      sendMessage_def WriteJSON_def json_Message_def screen_data_def json_string_ascii
      DecodeRuneInString_def RuneError_def demo_def alice_def bob_def)

text \<open>
  Claim C5.  A join on a session id that is not stored is answered with \<open>StatusNotFound\<close>
  and leaves the whole state as it was: no entry in a participant map or in the global
  index, and no connection opened (the request is refused before the upgrade).
\<close>

theorem join_unknown_session_rejected:
  "store_Sessions s sessionID = None \<Longrightarrow>
     handleWebSocket sessionID upgrade_ok rnd s = (StatusNotFound, s)"
  by (simp add: handleWebSocket_def)

theorem join_unknown_session_rejected_witness:
  "store_Sessions demo ''id_zzzzzzzz'' = None \<and>
   handleWebSocket ''id_zzzzzzzz'' True (\<lambda>_. 5) demo = (StatusNotFound, demo)"
proof -
  have h: "store_Sessions demo ''id_zzzzzzzz'' = None" by (simp add: demo_def)
  show ?thesis using h join_unknown_session_rejected [OF h, of True "\<lambda>_. 5"] by simp
qed

subsection \<open>Join; deleting a session\<close>



lemma participant_conns_card:
  assumes w: "wellformed s"
  shows "card {n. \<exists>j c. participant s S j c \<and> c_Conn c = Some n} = length (s_Clients (heap s S))"
proof -
  let ?xs = "s_Clients (heap s S)"
  let ?f = "\<lambda>e. the (c_Conn (snd e))"
  have keys: "wf_keys s" using w by (simp add: wellformed_def)
  then have dk: "distinct (map fst ?xs)" by (simp add: wf_keys_def)
  then have d: "distinct ?xs" by (rule distinct_map [THEN iffD1, THEN conjunct1])
  have mem: "\<And>e. e \<in> set ?xs \<Longrightarrow> participant s S (fst e) (snd e)"
    using keys participant_set [of s _ _ S] by (metis prod.collapse)
  have "{n. \<exists>j c. participant s S j c \<and> c_Conn c = Some n} = ?f ` set ?xs"
  proof (intro set_eqI iffI)
    fix n
    assume "n \<in> {n. \<exists>j c. participant s S j c \<and> c_Conn c = Some n}"
    then obtain j c where p: "participant s S j c" and n: "c_Conn c = Some n" by blast
    then have "(j, c) \<in> set ?xs" using keys by (simp add: participant_set)
    then show "n \<in> ?f ` set ?xs" using n by force
  next
    fix n
    assume "n \<in> ?f ` set ?xs"
    then obtain e where e: "e \<in> set ?xs" and n: "n = ?f e" by blast
    obtain m where "c_Conn (snd e) = Some m" using wf_partD [OF w mem [OF e]] by blast
    then show "n \<in> {n. \<exists>j c. participant s S j c \<and> c_Conn c = Some n}"
      using mem [OF e] n by auto
  qed
  moreover have "inj_on ?f (set ?xs)"
  proof (rule inj_onI)
    fix e e'
    assume e: "e \<in> set ?xs" and e': "e' \<in> set ?xs" and eq: "?f e = ?f e'"
    obtain m where m: "c_Conn (snd e) = Some m" using wf_partD [OF w mem [OF e]] by blast
    obtain m' where m': "c_Conn (snd e') = Some m'" using wf_partD [OF w mem [OF e']] by blast
    have "c_Conn (snd e) = c_Conn (snd e')" using eq m m' by simp
    then have "fst e = fst e'" using wf_injD [OF w mem [OF e] mem [OF e']] by simp
    moreover have "snd e = snd e'"
      using mem [OF e] mem [OF e'] calculation by (simp add: participant_def)
    ultimately show "e = e'" by (simp add: prod_eq_iff)
  qed
  ultimately have "card {n. \<exists>j c. participant s S j c \<and> c_Conn c = Some n} = card (set ?xs)"
    by (simp add: card_image)
  then show ?thesis using d by (simp add: distinct_card)
qed

lemma deleteSession_newly_closed:
  assumes w: "wellformed s" and reg: "store_Sessions s sid = Some S"
  shows "{n. closed (conns (snd (deleteSession sid s)) n) \<and> \<not> closed (conns s n)} =
         {n. \<exists>j c. participant s S j c \<and> c_Conn c = Some n}"
  using deleteSession_closed [OF w reg] wf_openD [OF w reg] by blast

lemma deleteSession_removed_ids:
  assumes w: "wellformed s" and rc: "registry_consistent s" and reg: "store_Sessions s sid = Some S"
  shows "card {j. store_Clients s j \<noteq> None \<and> store_Clients (snd (deleteSession sid s)) j = None} =
         length (s_Clients (heap s S))"
proof -
  have "wf_keys s" using w by (simp add: wellformed_def)
  then have dk: "distinct (map fst (s_Clients (heap s S)))" by (simp add: wf_keys_def)
  have ids: "fst ` set (s_Clients (heap s S)) =
      {i. \<exists>c. store_Clients s i = Some c \<and> c_SessionID c = sid}"
    using rc reg unfolding registry_consistent_def by blast
  have "{j. store_Clients s j \<noteq> None \<and> store_Clients (snd (deleteSession sid s)) j = None} =
      {i. \<exists>c. store_Clients s i = Some c \<and> c_SessionID c = sid}"
    by (auto simp: deleteSession_clients_inv [OF w rc reg] split: option.splits if_splits)
  then have "card {j. store_Clients s j \<noteq> None \<and> store_Clients (snd (deleteSession sid s)) j = None} =
      card (set (map fst (s_Clients (heap s S))))"
    using ids by simp
  then show ?thesis using dk by (simp add: distinct_card del: set_map)
qed

text \<open>
  Claim C3, amended.  In a well-formed state (every state the server reaches is one),
  \<open>deleteSession\<close> on a stored session whose participant map has \<open>N\<close> entries succeeds,
  takes the session out of the sessions map, closes the connection of every one of these
  participants (all of them open before: exactly \<open>N\<close> connections get closed) and
  takes the entry under the id of every one of them out of the global index.  When the
  state meets the invariant of the data model (\<open>registry_consistent\<close>), exactly \<open>N\<close>
  entries go and afterwards no entry of the global index carries the deleted session's id.
  The handler goes through the participant map of the session object it finds and looks
  neither for index entries nor for connections by session id: after \<open>createSession\<close> has
  stored a new object under an id in use, the clients that joined before stay in the index
  with their connections open (\<open>deleteSession_residue_counterexample\<close>).
\<close>

theorem deleteSession_leaves_nothing:
  assumes w: "wellformed s" and reg: "store_Sessions s sid = Some S"
  shows "fst (deleteSession sid s) = StatusNoContent \<and>
         store_Sessions (snd (deleteSession sid s)) sid = None \<and>
         (\<forall>j c. participant s S j c \<longrightarrow>
            store_Clients (snd (deleteSession sid s)) j = None \<and>
            (\<exists>n. c_Conn c = Some n \<and> \<not> closed (conns s n) \<and>
                 closed (conns (snd (deleteSession sid s)) n))) \<and>
         card {n. closed (conns (snd (deleteSession sid s)) n) \<and> \<not> closed (conns s n)} =
           length (s_Clients (heap s S)) \<and>
         (registry_consistent s \<longrightarrow>
            (\<forall>j c. store_Clients (snd (deleteSession sid s)) j = Some c \<longrightarrow> c_SessionID c \<noteq> sid) \<and>
            card {j. store_Clients s j \<noteq> None \<and> store_Clients (snd (deleteSession sid s)) j = None} =
              length (s_Clients (heap s S)))"
proof -
  have keys: "wf_keys s" using w by (simp add: wellformed_def)
  have 1: "fst (deleteSession sid s) = StatusNoContent"
    using reg by (simp add: deleteSession_def Let_def)
  have 2: "store_Sessions (snd (deleteSession sid s)) sid = None" by simp
  have 3: "\<forall>j d. participant s S j d \<longrightarrow>
            store_Clients (snd (deleteSession sid s)) j = None \<and>
            (\<exists>n. c_Conn d = Some n \<and> \<not> closed (conns s n) \<and>
                 closed (conns (snd (deleteSession sid s)) n))"
  proof (intro allI impI)
    fix j d
    assume p: "participant s S j d"
    then have m: "(j, d) \<in> set (s_Clients (heap s S))" using keys by (simp add: participant_set)
    have "c_ID d = j" using wf_partD [OF w p] by simp
    then have "j \<in> (c_ID \<circ> snd) ` set (s_Clients (heap s S))" using m by force
    then have a: "store_Clients (snd (deleteSession sid s)) j = None"
      using reg by (simp add: deleteSession_clients)
    obtain n where n: "c_Conn d = Some n" using wf_partD [OF w p] by blast
    have op: "\<not> closed (conns s n)" using wf_openD [OF w reg p n] .
    have "closed (conns (snd (deleteSession sid s)) n)"
      using deleteSession_closed [OF w reg] p n by blast
    then show "store_Clients (snd (deleteSession sid s)) j = None \<and>
            (\<exists>n. c_Conn d = Some n \<and> \<not> closed (conns s n) \<and>
                 closed (conns (snd (deleteSession sid s)) n))"
      using a n op by simp
  qed
  have 4: "card {n. closed (conns (snd (deleteSession sid s)) n) \<and> \<not> closed (conns s n)} =
           length (s_Clients (heap s S))"
    using deleteSession_newly_closed [OF w reg] participant_conns_card [OF w, of S] by simp
  have 5: "registry_consistent s \<longrightarrow>
            (\<forall>j d. store_Clients (snd (deleteSession sid s)) j = Some d \<longrightarrow> c_SessionID d \<noteq> sid) \<and>
            card {j. store_Clients s j \<noteq> None \<and> store_Clients (snd (deleteSession sid s)) j = None} =
              length (s_Clients (heap s S))"
  proof
    assume rc: "registry_consistent s"
    note idx = deleteSession_clients_inv [OF w rc reg]
    have a: "\<forall>j d. store_Clients (snd (deleteSession sid s)) j = Some d \<longrightarrow> c_SessionID d \<noteq> sid"
      by (auto simp: idx split: option.splits if_splits)
    show "(\<forall>j d. store_Clients (snd (deleteSession sid s)) j = Some d \<longrightarrow> c_SessionID d \<noteq> sid) \<and>
            card {j. store_Clients s j \<noteq> None \<and> store_Clients (snd (deleteSession sid s)) j = None} =
              length (s_Clients (heap s S))"
      using a deleteSession_removed_ids [OF w rc reg] by simp
  qed
  show ?thesis using 1 2 3 4 5 by blast
qed

lemma inv_demo: "invariant demo"
proof -
  have "distinct (session_ids demo_events)" "distinct (client_ids demo_events)"
    by (simp_all add: session_ids_def client_ids_def demo_events_def generateID_const)
  then have "invariant (run demo_events NewInMemoryStore)" by (rule inv_run)
  then show ?thesis by (simp add: run_demo)
qed

lemma registry_consistent_demo: "registry_consistent demo"
  using inv_demo by (rule inv_registry_consistent)

theorem deleteSession_leaves_nothing_witness:
  "fst (deleteSession ''id_aaaaaaaa'' demo) = StatusNoContent \<and>
   store_Sessions (snd (deleteSession ''id_aaaaaaaa'' demo)) ''id_aaaaaaaa'' = None \<and>
   store_Clients (snd (deleteSession ''id_aaaaaaaa'' demo)) ''id_BBBBBBBB'' = None \<and>
   store_Clients (snd (deleteSession ''id_aaaaaaaa'' demo)) ''id_CCCCCCCC'' = None \<and>
   closed (conns (snd (deleteSession ''id_aaaaaaaa'' demo)) 0) \<and>
   closed (conns (snd (deleteSession ''id_aaaaaaaa'' demo)) 1) \<and>
   card {n. closed (conns (snd (deleteSession ''id_aaaaaaaa'' demo)) n) \<and> \<not> closed (conns demo n)} = 2 \<and>
   card {j. store_Clients demo j \<noteq> None \<and>
            store_Clients (snd (deleteSession ''id_aaaaaaaa'' demo)) j = None} = 2"
proof -
  have reg: "store_Sessions demo ''id_aaaaaaaa'' = Some 0" by (simp add: demo_def)
  have pa: "participant demo 0 ''id_BBBBBBBB'' alice" and pb: "participant demo 0 ''id_CCCCCCCC'' bob"
    by (simp_all add: participant_def demo_def)
  note t = deleteSession_leaves_nothing [OF wellformed_demo reg]
  from t pa have a: "store_Clients (snd (deleteSession ''id_aaaaaaaa'' demo)) ''id_BBBBBBBB'' = None \<and>
      (\<exists>n. c_Conn alice = Some n \<and> \<not> closed (conns demo n) \<and>
           closed (conns (snd (deleteSession ''id_aaaaaaaa'' demo)) n))" by blast
  from t pb have b: "store_Clients (snd (deleteSession ''id_aaaaaaaa'' demo)) ''id_CCCCCCCC'' = None \<and>
      (\<exists>n. c_Conn bob = Some n \<and> \<not> closed (conns demo n) \<and>
           closed (conns (snd (deleteSession ''id_aaaaaaaa'' demo)) n))" by blast
  from t registry_consistent_demo
  have c: "card {j. store_Clients demo j \<noteq> None \<and>
      store_Clients (snd (deleteSession ''id_aaaaaaaa'' demo)) j = None} =
      length (s_Clients (heap demo 0))" by blast
  have l: "length (s_Clients (heap demo 0)) = 2" by (simp add: demo_def)
  show ?thesis using t a b c l by (simp add: alice_def bob_def)
qed

theorem deleteSession_residue_counterexample:
  "(let s = run replaced_events NewInMemoryStore;
        s' = snd (deleteSession ''id_aaaaaaaa'' s)
    in store_Sessions s ''id_aaaaaaaa'' = Some 1 \<and>
       handlers s =
         [(alice, 0), (bob, 0),
          (\<lparr>c_ID = ''id_DDDDDDDD'', c_Name = [], c_Conn = Some 2,
            c_SessionID = ''id_aaaaaaaa''\<rparr>, 1)] \<and>
       fst (deleteSession ''id_aaaaaaaa'' s) = StatusNoContent \<and>
       store_Clients s' ''id_BBBBBBBB'' = Some alice \<and>
       store_Clients s' ''id_CCCCCCCC'' = Some bob \<and>
       c_SessionID alice = ''id_aaaaaaaa'' \<and> c_SessionID bob = ''id_aaaaaaaa'' \<and>
       c_Conn alice = Some 0 \<and> c_Conn bob = Some 1 \<and>
       \<not> closed (conns s' 0) \<and> \<not> closed (conns s' 1) \<and> closed (conns s' 2))"
  by (simp add: replaced_events_def run_defs alice_def bob_def)

text \<open>
  Claim C10, amended.  \<open>deleteSession\<close> on a stored session leaves the sessions map
  unchanged at every other id and changes no session object (id, name, creation time,
  participant map).  In a well-formed state (every state the server reaches is one) it
  leaves every entry of the global index as it was, unless the entry is filed under the id
  of a participant of the deleted session; when the state meets the invariant of the data
  model (\<open>registry_consistent\<close>), every entry whose session id differs from the deleted one
  is therefore as it was.  The handler deletes index entries by participant id, whatever
  session they carry: after two clients of different sessions were given the same id,
  deleting one session removes the other's entry (\<open>deleteSession_frame_counterexample\<close>).
\<close>

theorem deleteSession_frame:
  assumes w: "wellformed s" and reg: "store_Sessions s sid = Some S"
  shows "(\<forall>k. k \<noteq> sid \<longrightarrow>
            store_Sessions (snd (deleteSession sid s)) k = store_Sessions s k) \<and>
         heap (snd (deleteSession sid s)) = heap s \<and>
         (\<forall>j. (\<forall>c. \<not> participant s S j c) \<longrightarrow>
            store_Clients (snd (deleteSession sid s)) j = store_Clients s j) \<and>
         (registry_consistent s \<longrightarrow>
            (\<forall>j c. store_Clients s j = Some c \<longrightarrow> c_SessionID c \<noteq> sid \<longrightarrow>
               store_Clients (snd (deleteSession sid s)) j = Some c))"
proof -
  have keys: "wf_keys s" using w by (simp add: wellformed_def)
  have 1: "\<forall>j. (\<forall>c. \<not> participant s S j c) \<longrightarrow>
            store_Clients (snd (deleteSession sid s)) j = store_Clients s j"
  proof (intro allI impI)
    fix j
    assume no: "\<forall>c. \<not> participant s S j c"
    have "j \<notin> (c_ID \<circ> snd) ` set (s_Clients (heap s S))"
    proof
      assume "j \<in> (c_ID \<circ> snd) ` set (s_Clients (heap s S))"
      then obtain e where e: "e \<in> set (s_Clients (heap s S))" and j: "j = c_ID (snd e)" by auto
      have p: "participant s S (fst e) (snd e)"
        using e keys participant_set [of s "fst e" "snd e" S] by simp
      then have "c_ID (snd e) = fst e" using wf_partD [OF w p] by simp
      then show False using no p j by simp
    qed
    then show "store_Clients (snd (deleteSession sid s)) j = store_Clients s j"
      using reg by (simp add: deleteSession_clients)
  qed
  have 2: "registry_consistent s \<longrightarrow>
            (\<forall>j c. store_Clients s j = Some c \<longrightarrow> c_SessionID c \<noteq> sid \<longrightarrow>
               store_Clients (snd (deleteSession sid s)) j = Some c)"
    by (simp add: deleteSession_clients_inv [OF w _ reg])
  show ?thesis using 1 2 by simp
qed

theorem deleteSession_frame_witness:
  "store_Sessions (snd (deleteSession ''id_aaaaaaaa'' demo)) ''id_DDDDDDDD'' = Some 1 \<and>
   heap (snd (deleteSession ''id_aaaaaaaa'' demo)) 1 = heap demo 1 \<and>
   store_Clients (snd (deleteSession ''id_aaaaaaaa'' demo)) ''id_EEEEEEEE'' = Some carol"
proof -
  have reg: "store_Sessions demo ''id_aaaaaaaa'' = Some 0" by (simp add: demo_def)
  have c: "store_Clients demo ''id_EEEEEEEE'' = Some carol" "c_SessionID carol \<noteq> ''id_aaaaaaaa''"
    by (simp_all add: demo_def carol_def)
  have r: "store_Sessions demo ''id_DDDDDDDD'' = Some 1" by (simp add: demo_def)
  from deleteSession_frame [OF wellformed_demo reg] registry_consistent_demo c r
  show ?thesis by simp
qed

theorem deleteSession_frame_counterexample:
  "(let s = run collision_events NewInMemoryStore;
        s' = snd (deleteSession ''id_aaaaaaaa'' s);
        c = \<lparr>c_ID = ''id_BBBBBBBB'', c_Name = [], c_Conn = Some 1, c_SessionID = ''id_DDDDDDDD''\<rparr>
    in store_Sessions s ''id_aaaaaaaa'' = Some 0 \<and>
       store_Sessions s ''id_DDDDDDDD'' = Some 1 \<and>
       store_Clients s ''id_BBBBBBBB'' = Some c \<and>
       c_SessionID c \<noteq> ''id_aaaaaaaa'' \<and>
       store_Clients s' ''id_BBBBBBBB'' = None \<and>
       store_Sessions s' ''id_DDDDDDDD'' = Some 1 \<and>
       s_Clients (heap s' 1) = [(''id_BBBBBBBB'', c)])"
  by (simp add: collision_events_def run_defs)

subsection \<open>Relay and leave after the session is gone\<close>

lemma inv_deleteSession: "invariant s \<Longrightarrow> invariant (snd (deleteSession sid s))"
  by (simp add: invariant_def wf_deleteSession consistent_deleteSession)

lemma handler_session_id:
  "wellformed s \<Longrightarrow> (c, S) \<in> set (handlers s) \<Longrightarrow> s_ID (heap s S) = c_SessionID c"
  using wf_handD by fastforce

lemma handler_gone:
  assumes i: "invariant s" and h: "(c, S) \<in> set (handlers s)"
    and gone: "store_Clients s (c_ID c) = None \<or> store_Sessions s (c_SessionID c) = None"
  shows "store_Sessions s (s_ID (heap s S)) = None \<and> store_Clients s (c_ID c) = None \<and>
         (\<forall>n. c_Conn c = Some n \<longrightarrow> closed (conns s n))"
proof -
  have w: "wellformed s" and c: "consistent s" using i by (simp_all add: invariant_def)
  from con_handD [OF c h] gone handler_session_id [OF w h] show ?thesis by auto
qed

text \<open>
  Claim C7, amended.  A relay whose session id is no longer stored changes nothing: no
  event is written to any connection and the registry is as before; the function has no
  error result.  The sender is never looked up.  In a state that meets \<open>invariant\<close> (every
  state of a run whose generated ids are distinct), the client of a running goroutine is
  absent from the global index only when its session is no longer stored, so its payload
  is dropped then too.  After two clients of one session were given the same id, the
  payload of a sender that is in neither map is delivered
  (\<open>relay_absent_sender_counterexample\<close>).
\<close>

theorem relay_dropped_when_gone:
  "(store_Sessions s (s_ID (heap s S)) = None \<longrightarrow> relay c S payload s = s) \<and>
   (invariant s \<longrightarrow> (c, S) \<in> set (handlers s) \<longrightarrow>
      store_Clients s (c_ID c) = None \<or> store_Sessions s (c_SessionID c) = None \<longrightarrow>
      relay c S payload s = s)"
proof -
  have 1: "store_Sessions s (s_ID (heap s S)) = None \<longrightarrow> relay c S payload s = s"
    by (simp add: relay_def broadcastToSession_def)
  have 2: "invariant s \<longrightarrow> (c, S) \<in> set (handlers s) \<longrightarrow>
      store_Clients s (c_ID c) = None \<or> store_Sessions s (c_SessionID c) = None \<longrightarrow>
      relay c S payload s = s"
    using handler_gone [of s c S] 1 by blast
  show ?thesis using 1 2 by blast
qed

theorem relay_dropped_when_gone_witness:
  "store_Clients (snd (deleteSession ''id_aaaaaaaa'' demo)) ''id_BBBBBBBB'' = None \<and>
   store_Sessions (snd (deleteSession ''id_aaaaaaaa'' demo)) ''id_aaaaaaaa'' = None \<and>
   relay alice 0 ''late'' (snd (deleteSession ''id_aaaaaaaa'' demo)) =
     snd (deleteSession ''id_aaaaaaaa'' demo)"
proof -
  let ?s = "snd (deleteSession ''id_aaaaaaaa'' demo)"
  have i: "invariant ?s" using inv_demo by (rule inv_deleteSession)
  have h: "(alice, 0) \<in> set (handlers ?s)" by (simp add: demo_def)
  have g: "store_Clients ?s (c_ID alice) = None"
    by (simp add: deleteSession_clients demo_def alice_def)
  from relay_dropped_when_gone [of ?s 0 alice "''late''"] i h g
  have "relay alice 0 ''late'' ?s = ?s" by blast
  then show ?thesis using g by (simp add: alice_def)
qed

theorem relay_absent_sender_counterexample:
  "(let s = run same_id_events NewInMemoryStore;
        sender = \<lparr>c_ID = ''id_BBBBBBBB'', c_Name = [], c_Conn = Some 1,
                  c_SessionID = ''id_aaaaaaaa''\<rparr>;
        other = \<lparr>c_ID = ''id_CCCCCCCC'', c_Name = [], c_Conn = Some 2,
                 c_SessionID = ''id_aaaaaaaa''\<rparr>;
        s' = read_event 0 (Some ''late'') s
    in handlers s = [(sender, 0), (other, 0)] \<and>
       store_Sessions s ''id_aaaaaaaa'' = Some 0 \<and>
       store_Clients s ''id_BBBBBBBB'' = None \<and>
       s_Clients (heap s 0) = [(''id_CCCCCCCC'', other)] \<and>
       \<not> closed (conns s 1) \<and>
       s' = relay sender 0 ''late'' s \<and>
       sent (conns s' 2) =
         sent (conns s 2) @
         [\<lparr>m_Type = ''screen_data'',
           m_Payload = [(''clientId'', ''id_BBBBBBBB''), (''data'', ''late'')]\<rparr>])"
  by (simp add: same_id_events_def run_defs json_string_ascii is_ascii_def
      del: json_string.simps)

lemma handler_gone_after_failed_read:
  assumes w: "wellformed s" and k: "k < length (handlers s)"
    and r: "ReadMessage (c_Conn (fst (handlers s ! k))) peer s = None"
  shows "handlers s ! k \<notin> set (handlers (read_event k peer s))"
proof -
  have d: "distinct (map (c_Conn \<circ> fst) (handlers s))" using w by (simp add: wellformed_def wf_dist_def)
  have "handlers (read_event k peer s) = take k (handlers s) @ drop (Suc k) (handlers s)"
    using k r by (simp add: read_event_def Let_def)
  then show ?thesis
    using distinct_map_nth_other [OF d k, of "handlers s ! k"] by (auto simp del: set_append)
qed

lemma delete_absent: "map_of xs k = None \<Longrightarrow> AList.delete k xs = xs"
  by (induction xs) (auto split: if_splits)

text \<open>
  Claim C4, amended.  The deferred function runs once for every goroutine: the goroutine
  whose read fails runs it and is gone.  When it runs for a client that is in neither the
  global index nor its session's participant map, it leaves the sessions map, the global
  index and every session object as they were.  In a state that meets \<open>invariant\<close>
  (every state of a run whose generated ids are distinct), the client of a running
  goroutine is absent from the global index only after its session was deleted, and
  then the function changes no connection either: no \<open>client_left\<close> is written.  The
  function does not test whether the client is registered: it closes the connection and
  broadcasts whenever the session id is stored.  After two clients of one session were
  given the same id, the first one's leave removes the id, and the second one's leave, for
  an id that is absent by then, closes a connection and sends the remaining participant
  \<open>client_left\<close> a second time (\<open>leave_absent_id_counterexample\<close>).
\<close>

theorem leave_of_removed_participant:
  assumes w: "wellformed s" and h: "(c, S) \<in> set (handlers s)"
  shows "(store_Clients s (c_ID c) = None \<longrightarrow> map_of (s_Clients (heap s S)) (c_ID c) = None \<longrightarrow>
            store_Sessions (leave c S s) = store_Sessions s \<and>
            store_Clients (leave c S s) = store_Clients s \<and>
            heap (leave c S s) = heap s) \<and>
         (invariant s \<longrightarrow> store_Clients s (c_ID c) = None \<longrightarrow>
            store_Sessions (leave c S s) = store_Sessions s \<and>
            store_Clients (leave c S s) = store_Clients s \<and>
            conns (leave c S s) = conns s \<and>
            (\<forall>k a. store_Sessions s k = Some a \<longrightarrow> heap (leave c S s) a = heap s a)) \<and>
         (\<forall>k peer. k < length (handlers s) \<longrightarrow> handlers s ! k = (c, S) \<longrightarrow>
            ReadMessage (c_Conn c) peer s = None \<longrightarrow>
            read_event k peer s =
              (leave c S s)\<lparr>handlers := take k (handlers s) @ drop (Suc k) (handlers s)\<rparr> \<and>
            (c, S) \<notin> set (handlers (read_event k peer s)))"
proof -
  have 0: "store_Clients s (c_ID c) = None \<longrightarrow> map_of (s_Clients (heap s S)) (c_ID c) = None \<longrightarrow>
            store_Sessions (leave c S s) = store_Sessions s \<and>
            store_Clients (leave c S s) = store_Clients s \<and>
            heap (leave c S s) = heap s"
    by (auto simp: fun_eq_iff delete_absent)
  have 1: "invariant s \<longrightarrow> store_Clients s (c_ID c) = None \<longrightarrow>
            store_Sessions (leave c S s) = store_Sessions s \<and>
            store_Clients (leave c S s) = store_Clients s \<and>
            conns (leave c S s) = conns s \<and>
            (\<forall>k a. store_Sessions s k = Some a \<longrightarrow> heap (leave c S s) a = heap s a)"
  proof (intro impI)
    assume i: "invariant s" and absent: "store_Clients s (c_ID c) = None"
    have g: "store_Sessions s (s_ID (heap s S)) = None"
      and cl: "\<forall>n. c_Conn c = Some n \<longrightarrow> closed (conns s n)"
      using handler_gone [OF i h] absent by simp_all
    have a: "store_Clients (leave c S s) = store_Clients s" using absent by (simp add: fun_eq_iff)
    have b: "conns (leave c S s) = conns s"
      using g cl by (auto simp: leave_def Let_def Close_def broadcastToSession_def fun_eq_iff
          split: option.splits)
    have c: "\<forall>k a. store_Sessions s k = Some a \<longrightarrow> heap (leave c S s) a = heap s a"
    proof (intro allI impI)
      fix k a
      assume r: "store_Sessions s k = Some a"
      then have "a \<noteq> S" using wf_regD [OF w r] g by auto
      then show "heap (leave c S s) a = heap s a" by simp
    qed
    show "store_Sessions (leave c S s) = store_Sessions s \<and>
            store_Clients (leave c S s) = store_Clients s \<and>
            conns (leave c S s) = conns s \<and>
            (\<forall>k a. store_Sessions s k = Some a \<longrightarrow> heap (leave c S s) a = heap s a)"
      using a b c by simp
  qed
  have 2: "\<forall>k peer. k < length (handlers s) \<longrightarrow> handlers s ! k = (c, S) \<longrightarrow>
            ReadMessage (c_Conn c) peer s = None \<longrightarrow>
            read_event k peer s =
              (leave c S s)\<lparr>handlers := take k (handlers s) @ drop (Suc k) (handlers s)\<rparr> \<and>
            (c, S) \<notin> set (handlers (read_event k peer s))"
  proof (intro allI impI)
    fix k peer
    assume k: "k < length (handlers s)" and e: "handlers s ! k = (c, S)"
      and r: "ReadMessage (c_Conn c) peer s = None"
    have "(c, S) \<notin> set (handlers (read_event k peer s))"
      using handler_gone_after_failed_read [OF w k, of peer] e r by simp
    moreover have "read_event k peer s =
        (leave c S s)\<lparr>handlers := take k (handlers s) @ drop (Suc k) (handlers s)\<rparr>"
      using k e r by (simp add: read_event_def)
    ultimately show "read_event k peer s =
        (leave c S s)\<lparr>handlers := take k (handlers s) @ drop (Suc k) (handlers s)\<rparr> \<and>
        (c, S) \<notin> set (handlers (read_event k peer s))"
      by simp
  qed
  show ?thesis using 0 1 2 by blast
qed

theorem leave_of_removed_participant_witness:
  "store_Clients (snd (deleteSession ''id_aaaaaaaa'' demo)) ''id_BBBBBBBB'' = None \<and>
   store_Sessions (leave alice 0 (snd (deleteSession ''id_aaaaaaaa'' demo))) =
     store_Sessions (snd (deleteSession ''id_aaaaaaaa'' demo)) \<and>
   store_Clients (leave alice 0 (snd (deleteSession ''id_aaaaaaaa'' demo))) =
     store_Clients (snd (deleteSession ''id_aaaaaaaa'' demo)) \<and>
   conns (leave alice 0 (snd (deleteSession ''id_aaaaaaaa'' demo))) =
     conns (snd (deleteSession ''id_aaaaaaaa'' demo))"
proof -
  let ?s = "snd (deleteSession ''id_aaaaaaaa'' demo)"
  have i: "invariant ?s" using inv_demo by (rule inv_deleteSession)
  then have w: "wellformed ?s" by (simp add: invariant_def)
  have h: "(alice, 0) \<in> set (handlers ?s)" by (simp add: demo_def)
  have g: "store_Clients ?s (c_ID alice) = None"
    by (simp add: deleteSession_clients demo_def alice_def)
  from leave_of_removed_participant [OF w h] i g show ?thesis by (simp add: alice_def)
qed

theorem leave_absent_id_counterexample:
  "(let s = run same_id_events NewInMemoryStore;
        second = \<lparr>c_ID = ''id_BBBBBBBB'', c_Name = [], c_Conn = Some 1,
                  c_SessionID = ''id_aaaaaaaa''\<rparr>;
        other = \<lparr>c_ID = ''id_CCCCCCCC'', c_Name = [], c_Conn = Some 2,
                 c_SessionID = ''id_aaaaaaaa''\<rparr>;
        left = \<lparr>m_Type = ''client_left'', m_Payload = [(''clientId'', ''id_BBBBBBBB'')]\<rparr>;
        s' = read_event 0 None s
    in handlers s = [(second, 0), (other, 0)] \<and>
       store_Clients s ''id_BBBBBBBB'' = None \<and>
       s_Clients (heap s 0) = [(''id_CCCCCCCC'', other)] \<and>
       s' = (leave second 0 s)\<lparr>handlers := [(other, 0)]\<rparr> \<and>
       \<not> closed (conns s 1) \<and> closed (conns s' 1) \<and>
       sent (conns s 2) =
         [\<lparr>m_Type = ''session_joined'',
           m_Payload = [(''sessionId'', ''id_aaaaaaaa''), (''clientId'', ''id_CCCCCCCC'')]\<rparr>,
          left] \<and>
       sent (conns s' 2) =
         [\<lparr>m_Type = ''session_joined'',
           m_Payload = [(''sessionId'', ''id_aaaaaaaa''), (''clientId'', ''id_CCCCCCCC'')]\<rparr>,
          left, left])"
  by (simp add: same_id_events_def run_defs)

subsection \<open>The end of a receive loop\<close>

lemma relay_closed [simp]: "closed (conns (relay c S m s) n) = closed (conns s n)"
  using same_but_sent_relay [of s c S m] by (simp add: same_but_sent_def)

lemma received_relay [simp]: "received c peers (relay c' S m s) = received c peers s"
  by (simp add: received_def split: option.splits)










subsection \<open>The invariant after a run; creating a session\<close>

text \<open>
  Claim C2, amended.  After every run from the empty store in which no session id and no
  client id is generated twice, the participant ids of every stored session are the ids
  of the global index entries carrying that session's id, and every entry of the global
  index names a stored session.  Without the condition on the ids the statement fails:
  \<open>registry_consistent_counterexample\<close>.
\<close>

theorem registry_consistent_after_run:
  assumes "distinct (session_ids es)" and "distinct (client_ids es)"
  shows "registry_consistent (run es NewInMemoryStore)"
  using inv_run [OF assms] by (rule inv_registry_consistent)

theorem registry_consistent_after_run_witness:
  "distinct (session_ids demo_events) \<and> distinct (client_ids demo_events) \<and>
   registry_consistent (run demo_events NewInMemoryStore)"
proof -
  have d: "distinct (session_ids demo_events)" "distinct (client_ids demo_events)"
    by (simp_all add: session_ids_def client_ids_def demo_events_def generateID_const)
  show ?thesis using d registry_consistent_after_run [OF d] by simp
qed

theorem registry_consistent_counterexample:
  "\<not> registry_consistent (run collision_events NewInMemoryStore)"
proof
  let ?s = "run collision_events NewInMemoryStore"
  assume rc: "registry_consistent ?s"
  have r: "store_Sessions ?s ''id_aaaaaaaa'' = Some 0"
    and p: "map fst (s_Clients (heap ?s 0)) = [''id_BBBBBBBB'']"
    and x: "store_Clients ?s ''id_BBBBBBBB'' =
      Some \<lparr>c_ID = ''id_BBBBBBBB'', c_Name = [], c_Conn = Some 1, c_SessionID = ''id_DDDDDDDD''\<rparr>"
    by (simp_all add: collision_events_def run_defs)
  from rc r have "fst ` set (s_Clients (heap ?s 0)) =
      {i. \<exists>c. store_Clients ?s i = Some c \<and> c_SessionID c = ''id_aaaaaaaa''}"
    unfolding registry_consistent_def by blast
  moreover have "''id_BBBBBBBB'' \<in> fst ` set (s_Clients (heap ?s 0))"
    using p by (metis list.set_intros(1) set_map)
  ultimately have "\<exists>c. store_Clients ?s ''id_BBBBBBBB'' = Some c \<and> c_SessionID c = ''id_aaaaaaaa''"
    by blast
  then show False using x by simp
qed

text \<open>
  Claim C9, amended.  \<open>createSession\<close> with a non-empty name always succeeds: it builds a
  session with the id \<open>generateID\<close> returns (\<open>id_\<close> and eight characters of the
  alphabet), the name, the time and an empty participant map, stores it under that id and
  returns it; it fails, with \<open>StatusBadRequest\<close> and no change, exactly on a missing or
  empty name.  The id is not compared with the ids stored:
  \<open>createSession_id_counterexample\<close> creates a session under an id that is in use.
\<close>

theorem createSession_stores_session:
  "(name \<noteq> [] \<longrightarrow>
      fst (createSession (Some name) rnd now s) =
        StatusCreated \<lparr>s_ID = generateID rnd, s_Name = name, s_CreatedAt = now, s_Clients = []\<rparr> \<and>
      store_Sessions (snd (createSession (Some name) rnd now s)) =
        (store_Sessions s)(generateID rnd \<mapsto> next_addr s) \<and>
      heap (snd (createSession (Some name) rnd now s)) =
        (heap s)(next_addr s :=
          \<lparr>s_ID = generateID rnd, s_Name = name, s_CreatedAt = now, s_Clients = []\<rparr>) \<and>
      store_Clients (snd (createSession (Some name) rnd now s)) = store_Clients s \<and>
      conns (snd (createSession (Some name) rnd now s)) = conns s) \<and>
   (fst (createSession req rnd now s) = StatusBadRequest \<longleftrightarrow> req = None \<or> req = Some []) \<and>
   (req = None \<or> req = Some [] \<longrightarrow> snd (createSession req rnd now s) = s) \<and>
   take 3 (generateID rnd) = ''id_'' \<and> length (generateID rnd) = 11 \<and>
   set (drop 3 (generateID rnd)) \<subseteq> set charset"
proof -
  have 1: "name \<noteq> [] \<longrightarrow>
      fst (createSession (Some name) rnd now s) =
        StatusCreated \<lparr>s_ID = generateID rnd, s_Name = name, s_CreatedAt = now, s_Clients = []\<rparr> \<and>
      store_Sessions (snd (createSession (Some name) rnd now s)) =
        (store_Sessions s)(generateID rnd \<mapsto> next_addr s) \<and>
      heap (snd (createSession (Some name) rnd now s)) =
        (heap s)(next_addr s :=
          \<lparr>s_ID = generateID rnd, s_Name = name, s_CreatedAt = now, s_Clients = []\<rparr>) \<and>
      store_Clients (snd (createSession (Some name) rnd now s)) = store_Clients s \<and>
      conns (snd (createSession (Some name) rnd now s)) = conns s"
    by (simp add: createSession_def Let_def)
  have 2: "fst (createSession req rnd now s) = StatusBadRequest \<longleftrightarrow> req = None \<or> req = Some []"
    by (cases req) (simp_all add: createSession_def Let_def)
  have 3: "req = None \<or> req = Some [] \<longrightarrow> snd (createSession req rnd now s) = s"
    by (auto simp: createSession_def)
  have "\<And>r. charset ! (r mod 62) \<in> set charset"
    by (rule nth_mem) (simp add: charset_def)
  then have 4: "set (drop 3 (generateID rnd)) \<subseteq> set charset"
    by (simp add: generateID_def randomString_8)
  have 5: "take 3 (generateID rnd) = ''id_''" "length (generateID rnd) = 11"
    by (simp_all add: generateID_def randomString_8)
  show ?thesis using 1 2 3 4 5 by blast
qed

theorem createSession_stores_session_witness:
  "fst (createSession (Some ''Demo'') (\<lambda>_. 0) 1700000000 NewInMemoryStore) =
     StatusCreated \<lparr>s_ID = ''id_aaaaaaaa'', s_Name = ''Demo'', s_CreatedAt = 1700000000,
       s_Clients = []\<rparr> \<and>
   store_Sessions (snd (createSession (Some ''Demo'') (\<lambda>_. 0) 1700000000 NewInMemoryStore))
     ''id_aaaaaaaa'' = Some 0 \<and>
   createSession (Some []) (\<lambda>_. 0) 1700000000 NewInMemoryStore = (StatusBadRequest, NewInMemoryStore) \<and>
   createSession None (\<lambda>_. 0) 1700000000 NewInMemoryStore = (StatusBadRequest, NewInMemoryStore)"
proof -
  have ne: "''Demo'' \<noteq> []" by simp
  note t = createSession_stores_session [of "''Demo''" "\<lambda>_. 0" 1700000000 NewInMemoryStore]
  have a: "fst (createSession (Some ''Demo'') (\<lambda>_. 0) 1700000000 NewInMemoryStore) =
     StatusCreated \<lparr>s_ID = ''id_aaaaaaaa'', s_Name = ''Demo'', s_CreatedAt = 1700000000,
       s_Clients = []\<rparr>"
    and b: "store_Sessions (snd (createSession (Some ''Demo'') (\<lambda>_. 0) 1700000000 NewInMemoryStore))
     ''id_aaaaaaaa'' = Some 0"
    using t [of None] ne by (simp_all add: generateID_const NewInMemoryStore_def)
  have c: "createSession (Some []) (\<lambda>_. 0) 1700000000 NewInMemoryStore = (StatusBadRequest, NewInMemoryStore)"
    using t [of "Some []"] by (simp add: prod_eq_iff)
  have d: "createSession None (\<lambda>_. 0) 1700000000 NewInMemoryStore = (StatusBadRequest, NewInMemoryStore)"
    using t [of None] by (simp add: prod_eq_iff)
  show ?thesis using a b c d by simp
qed

theorem createSession_id_counterexample:
  "store_Sessions demo (generateID (\<lambda>_. 0)) = Some 0 \<and>
   fst (createSession (Some ''Again'') (\<lambda>_. 0) 1700000002 demo) =
     StatusCreated \<lparr>s_ID = ''id_aaaaaaaa'', s_Name = ''Again'', s_CreatedAt = 1700000002,
       s_Clients = []\<rparr> \<and>
   store_Sessions (snd (createSession (Some ''Again'') (\<lambda>_. 0) 1700000002 demo)) ''id_aaaaaaaa'' = Some 2 \<and>
   s_Clients (heap (snd (createSession (Some ''Again'') (\<lambda>_. 0) 1700000002 demo)) 0) =
     [(''id_BBBBBBBB'', alice), (''id_CCCCCCCC'', bob)]"
  by (simp add: createSession_def Let_def generateID_const demo_def)

subsection \<open>The scenario of the specification\<close>

lemma scenario:
  "conns (run scenario_events NewInMemoryStore) 0 =
     \<lparr>closed = True,
      sent = [\<lparr>m_Type = ''session_joined'',
               m_Payload = [(''sessionId'', ''id_aaaaaaaa''), (''clientId'', ''id_BBBBBBBB'')]\<rparr>,
              \<lparr>m_Type = ''client_joined'', m_Payload = [(''clientId'', ''id_CCCCCCCC'')]\<rparr>,
              \<lparr>m_Type = ''client_left'', m_Payload = [(''clientId'', ''id_CCCCCCCC'')]\<rparr>]\<rparr>"
  "conns (run scenario_events NewInMemoryStore) 1 =
     \<lparr>closed = True,
      sent = [\<lparr>m_Type = ''session_joined'',
               m_Payload = [(''sessionId'', ''id_aaaaaaaa''), (''clientId'', ''id_CCCCCCCC'')]\<rparr>,
              \<lparr>m_Type = ''screen_data'',
               m_Payload = [(''clientId'', ''id_BBBBBBBB''), (''data'', ''ping'')]\<rparr>]\<rparr>"
  "getSession ''id_aaaaaaaa'' (run scenario_events NewInMemoryStore) = StatusNotFound"
  "store_Clients (run scenario_events NewInMemoryStore) = Map.empty"
  "handlers (run scenario_events NewInMemoryStore) = [(alice, 0)]"
  by (simp_all add: scenario_events_def alice_def getSession_def run_defs
      json_string_ascii is_ascii_def del: json_string.simps)

end
